theory Spec2Isabelle
  imports Main
begin

section \<open>Frame selector of the PlanetarySystemStacker: model of frame_selector.py\<close>

text \<open>
  The module holds three classes: \<open>VideoFrameSelector\<close> (the viewer), \<open>FrameSelectorWidget\<close>
  (the editing session) and \<open>FramePlayer\<close> (the playback loop). The objects are mutable and
  share references, so the model is a state record passed through every method. The boolean
  arrays live in a store of their own, addressed by references, because the widget works on a
  copy of the array of the \<open>Frames\<close> object and the viewer shares the widget's copy.

  Values that the GUI toolkit hands to a method (the selected items of the list widget, the
  value of the slider) are arguments of the modelled method. Texts and colours of list items
  are presentation only and are left out.
\<close>

subsection \<open>Python values: exceptions and indexing\<close>

datatype error = IndexError | TypeError | AttributeError

datatype 'a outcome = Return 'a | Raise error

text \<open>Indexing of a sequence of length \<open>n\<close>: a negative index counts from the end.\<close>

definition py_index :: "nat \<Rightarrow> int \<Rightarrow> error + nat" where
  "py_index n i =
     (if 0 \<le> i \<and> i < int n then Inr (nat i)
      else if - int n \<le> i \<and> i < 0 then Inr (nat (int n + i))
      else Inl IndexError)"

definition getitem :: "'a list \<Rightarrow> int \<Rightarrow> error + 'a" where
  "getitem xs i = (case py_index (length xs) i of Inl e \<Rightarrow> Inl e | Inr j \<Rightarrow> Inr (xs ! j))"

definition setitem :: "'a list \<Rightarrow> int \<Rightarrow> 'a \<Rightarrow> error + 'a list" where
  "setitem xs i v =
     (case py_index (length xs) i of Inl e \<Rightarrow> Inl e | Inr j \<Rightarrow> Inr (xs[j := v]))"

text \<open>\<open>range(n)\<close> is empty for \<open>n \<le> 0\<close>.\<close>

definition py_range :: "int \<Rightarrow> int list" where
  "py_range n = map int [0..<nat n]"

text \<open>\<open>sum\<close> of a boolean array counts its true entries.\<close>

definition py_sum :: "bool list \<Rightarrow> int" where
  "py_sum bs = int (length (filter (\<lambda>b. b) bs))"

subsection \<open>The objects\<close>

type_synonym addr = nat

text \<open>
  The \<open>Frames\<close> object is owned by the caller. Only the three attributes that this module
  reads are kept; \<open>index_included\<close> is a reference to a boolean array in the store.
\<close>

record Frames =
  number_original :: int
  number :: int
  index_included :: addr

text \<open>A list item is identified by the row it sits on; \<open>listWidget.row(item)\<close> reads it.\<close>

datatype item = Item int

fun row :: "item \<Rightarrow> int" where
  "row (Item r) = r"

text \<open>Messages handed to \<open>Miscellaneous.protocol\<close>, in the order of the calls.\<close>

datatype protocol_msg =
    StartSelecting
  | FramesIncluded "int list"
  | FramesExcluded "int list"
  | FramesRemaining int

text \<open>
  The state: the store of boolean arrays, the widget's attributes, the attributes of its viewer
  (\<open>frame_selector\<close>) and of its player (\<open>frame_player\<close>), and the observable effects (signals
  emitted, display requests, protocol lines, window closed). An attribute that may be missing
  or \<open>None\<close> is an option.
\<close>

record state =
  arrays :: "addr \<Rightarrow> bool list"
  next_free :: addr
  frames :: Frames
  parent_gui :: bool
  global_parameters_protocol_level :: int
  stacked_image_log_file :: "protocol_msg list"
  self_index_included :: addr
  items_selected :: "item list option"
  indices_selected :: "int list option"
  frame_index :: int
  viewer_index_included :: addr
  image_loading_busy :: bool
  photos :: "(int \<times> bool) list"
  slider_minimum :: int
  slider_maximum :: int
  run_player :: bool
  elements_disabled :: bool
  set_photo_signal :: "int list"
  signal_finished :: "bool list"
  signal_payload :: "bool option"
  closed :: bool

text \<open>
  \<open>parent_gui\<close> is true when the attribute is not \<open>None\<close>. \<open>signal_payload\<close> is \<open>None\<close> as
  long as the attribute has never been assigned. \<open>photos\<close> lists the calls of the viewer's
  base class (frame index, exclusion overlay), \<open>set_photo_signal\<close> and \<open>signal_finished\<close> the
  payloads emitted on the two signals.
\<close>

subsection \<open>VideoFrameSelector\<close>

text \<open>
  Modelled from the spec: the base class \<open>FrameViewer\<close> is not part of the sources. A load
  attempt is terminal: it ends the busy state. The model records the request.
\<close>

definition FrameViewer_setPhoto :: "int \<Rightarrow> bool \<Rightarrow> state \<Rightarrow> state" where
  "FrameViewer_setPhoto index overlay_exclude_mark s =
     s\<lparr>photos := photos s @ [(index, overlay_exclude_mark)], image_loading_busy := False\<rparr>"

text \<open>
  \<open>setPhoto\<close> raises the busy flag, fetches the image, reads the inclusion flag of the frame
  through the viewer's reference and calls the base class.
\<close>

definition setPhoto :: "int \<Rightarrow> state \<Rightarrow> unit outcome \<times> state" where
  "setPhoto index s =
     (let s1 = s\<lparr>image_loading_busy := True\<rparr> in
      case getitem (arrays s1 (viewer_index_included s1)) index of
        Inl e \<Rightarrow> (Raise e, s1)
      | Inr included \<Rightarrow> (Return (), FrameViewer_setPhoto index (\<not> included) s1))"

subsection \<open>FrameSelectorWidget\<close>

text \<open>
  The constructor copies the committed array into a fresh cell of the store, builds one list
  item per frame (reading the flag of every index below \<open>number_original\<close>), creates the
  viewer on the copy, which displays frame 0, creates the player and configures the slider.
\<close>

fun init_items :: "bool list \<Rightarrow> int list \<Rightarrow> error option" where
  "init_items included [] = None"
| "init_items included (i # is) =
     (case getitem included i of Inl e \<Rightarrow> Some e | Inr b \<Rightarrow> init_items included is)"

definition init_widget ::
  "bool \<Rightarrow> int \<Rightarrow> protocol_msg list \<Rightarrow> (addr \<Rightarrow> bool list) \<Rightarrow> addr \<Rightarrow> Frames
     \<Rightarrow> unit outcome \<times> state" where
  "init_widget parent level log_file store free fr =
     (let copy = free;
          s0 = \<lparr>arrays = store(copy := store (index_included fr)),
                next_free = Suc free,
                frames = fr,
                parent_gui = parent,
                global_parameters_protocol_level = level,
                stacked_image_log_file = log_file,
                self_index_included = copy,
                items_selected = None,
                indices_selected = None,
                frame_index = 0,
                viewer_index_included = copy,
                image_loading_busy = False,
                photos = [],
                slider_minimum = 0,
                slider_maximum = 0,
                run_player = False,
                elements_disabled = False,
                set_photo_signal = [],
                signal_finished = [],
                signal_payload = None,
                closed = False\<rparr>
      in case init_items (arrays s0 (self_index_included s0)) (py_range (number_original fr)) of
           Some e \<Rightarrow> (Raise e, s0)
         | None \<Rightarrow>
             (case setPhoto (frame_index s0) s0 of
                (Raise e, s1) \<Rightarrow> (Raise e, s1)
              | (Return u, s1) \<Rightarrow>
                  (let s2 = s1\<lparr>slider_minimum := 1, slider_maximum := number (frames s1)\<rparr>
                   in (Return (),
                       if global_parameters_protocol_level s2 > 0
                       then s2\<lparr>stacked_image_log_file :=
                                 stacked_image_log_file s2 @ [StartSelecting]\<rparr>
                       else s2))))"

text \<open>
  \<open>select_items\<close> stores the selected items and their rows, moves the frame index to the
  first entry of the row list and displays that frame. Both attributes are already assigned
  when the read of entry 0 fails on an empty list.
\<close>

definition select_items :: "item list \<Rightarrow> state \<Rightarrow> unit outcome \<times> state" where
  "select_items selectedItems s =
     (let s1 = s\<lparr>items_selected := Some selectedItems\<rparr>;
          s2 = s1\<lparr>indices_selected := Some (map row selectedItems)\<rparr>
      in case getitem (map row selectedItems) 0 of
           Inl e \<Rightarrow> (Raise e, s2)
         | Inr first \<Rightarrow> setPhoto first (s2\<lparr>frame_index := first\<rparr>))"

text \<open>The Escape key in the event filter empties both selection attributes.\<close>

definition escape_pressed :: "state \<Rightarrow> state" where
  "escape_pressed s = s\<lparr>items_selected := Some [], indices_selected := Some []\<rparr>"

text \<open>
  The loop shared by \<open>use_triggered\<close> (flag true) and \<open>not_use_triggered\<close> (flag false): for
  every position of \<open>items_selected\<close>, read the row at that position of \<open>indices_selected\<close>,
  write the flag into the working array at that row and display the current frame again.
\<close>

fun triggered_loop :: "bool \<Rightarrow> int list \<Rightarrow> state \<Rightarrow> unit outcome \<times> state" where
  "triggered_loop flag [] s = (Return (), s)"
| "triggered_loop flag (index # rest) s =
     (case indices_selected s of
        None \<Rightarrow> (Raise TypeError, s)
      | Some indices \<Rightarrow>
          (case getitem indices index of
             Inl e \<Rightarrow> (Raise e, s)
           | Inr index_selected \<Rightarrow>
               (case setitem (arrays s (self_index_included s)) index_selected flag of
                  Inl e \<Rightarrow> (Raise e, s)
                | Inr updated \<Rightarrow>
                    (case setPhoto (frame_index s)
                            (s\<lparr>arrays := (arrays s)(self_index_included s := updated)\<rparr>) of
                       (Raise e, s1) \<Rightarrow> (Raise e, s1)
                     | (Return u, s1) \<Rightarrow> triggered_loop flag rest s1))))"

text \<open>\<open>if self.items_selected:\<close> is false for \<open>None\<close> and for the empty list.\<close>

definition triggered :: "bool \<Rightarrow> state \<Rightarrow> unit outcome \<times> state" where
  "triggered flag s =
     (case items_selected s of
        None \<Rightarrow> (Return (), s)
      | Some [] \<Rightarrow> (Return (), s)
      | Some items \<Rightarrow> triggered_loop flag (py_range (int (length items))) s)"

definition use_triggered :: "state \<Rightarrow> unit outcome \<times> state" where
  "use_triggered s = triggered True s"

definition not_use_triggered :: "state \<Rightarrow> unit outcome \<times> state" where
  "not_use_triggered s = triggered False s"

text \<open>
  \<open>slider_frames_changed\<close> takes the slider value, makes the row current in the list and
  calls \<open>select_items\<close> (with the items the list then reports as selected) and \<open>setPhoto\<close>.
\<close>

definition slider_frames_changed :: "int \<Rightarrow> item list \<Rightarrow> state \<Rightarrow> unit outcome \<times> state" where
  "slider_frames_changed slider_value selectedItems s =
     (let s1 = s\<lparr>frame_index := slider_value - 1\<rparr>
      in case select_items selectedItems s1 of
           (Raise e, s2) \<Rightarrow> (Raise e, s2)
         | (Return u, s2) \<Rightarrow> setPhoto (frame_index s2) s2)"

definition pushbutton_stop_clicked :: "state \<Rightarrow> state" where
  "pushbutton_stop_clicked s = s\<lparr>run_player := False\<rparr>"

text \<open>
  The loop of \<open>done\<close> over \<open>range(number_original)\<close>, with the two local lists as
  accumulators. Either branch reads the working flag first and the committed flag second.
\<close>

fun done_loop ::
  "int list \<Rightarrow> int list \<Rightarrow> int list \<Rightarrow> state \<Rightarrow> (int list \<times> int list) outcome \<times> state" where
  "done_loop [] indices_included indices_excluded s =
     (Return (indices_included, indices_excluded), s)"
| "done_loop (index # rest) indices_included indices_excluded s =
     (case getitem (arrays s (self_index_included s)) index of
        Inl e \<Rightarrow> (Raise e, s)
      | Inr working \<Rightarrow>
          (case getitem (arrays s (index_included (frames s))) index of
             Inl e \<Rightarrow> (Raise e, s)
           | Inr committed \<Rightarrow>
               if working \<and> \<not> committed then
                 (case setitem (arrays s (index_included (frames s))) index True of
                    Inl e \<Rightarrow> (Raise e, s)
                  | Inr updated \<Rightarrow>
                      done_loop rest (indices_included @ [index]) indices_excluded
                        (s\<lparr>arrays := (arrays s)(index_included (frames s) := updated)\<rparr>))
               else if \<not> working \<and> committed then
                 (case setitem (arrays s (index_included (frames s))) index False of
                    Inl e \<Rightarrow> (Raise e, s)
                  | Inr updated \<Rightarrow>
                      done_loop rest indices_included (indices_excluded @ [index])
                        (s\<lparr>arrays := (arrays s)(index_included (frames s) := updated)\<rparr>))
               else done_loop rest indices_included indices_excluded s))"

text \<open>
  After the loop \<open>done\<close> writes the protocol (frame numbers are indices plus one; the count of
  remaining frames is written when it differs from \<open>frames.number\<close>), emits the completion
  signal when there is a parent and closes the window. The method returns nothing; the model
  returns the two local lists.
\<close>

definition done_protocol :: "int list \<Rightarrow> int list \<Rightarrow> state \<Rightarrow> state" where
  "done_protocol indices_included indices_excluded s =
     (if global_parameters_protocol_level s > 1 then
        (let s1 = (if indices_included \<noteq> []
                   then s\<lparr>stacked_image_log_file := stacked_image_log_file s
                            @ [FramesIncluded (map (\<lambda>item. item + 1) indices_included)]\<rparr>
                   else s);
             s2 = (if indices_excluded \<noteq> []
                   then s1\<lparr>stacked_image_log_file := stacked_image_log_file s1
                            @ [FramesExcluded (map (\<lambda>item. item + 1) indices_excluded)]\<rparr>
                   else s1);
             frames_remaining = py_sum (arrays s2 (index_included (frames s2)))
         in if frames_remaining \<noteq> number (frames s2)
            then s2\<lparr>stacked_image_log_file := stacked_image_log_file s2
                     @ [FramesRemaining frames_remaining]\<rparr>
            else s2)
      else s)"

definition done_selector :: "state \<Rightarrow> (int list \<times> int list) outcome \<times> state" where
  "done_selector s =
     (case done_loop (py_range (number_original (frames s))) [] [] s of
        (Raise e, s1) \<Rightarrow> (Raise e, s1)
      | (Return (indices_included, indices_excluded), s1) \<Rightarrow>
          (let s2 = done_protocol indices_included indices_excluded s1;
               s3 = (if parent_gui s2
                     then s2\<lparr>signal_finished := signal_finished s2
                              @ [indices_included \<noteq> [] \<or> indices_excluded \<noteq> []]\<rparr>
                     else s2)
           in (Return (indices_included, indices_excluded), s3\<lparr>closed := True\<rparr>)))"

text \<open>
  \<open>reject\<close> emits the attribute \<open>signal_payload\<close> when there is a parent, then closes the
  window. Reading an attribute that was never assigned raises \<open>AttributeError\<close>.
\<close>

definition reject :: "state \<Rightarrow> unit outcome \<times> state" where
  "reject s =
     (if parent_gui s then
        (case signal_payload s of
           None \<Rightarrow> (Raise AttributeError, s)
         | Some payload \<Rightarrow>
             (Return (), s\<lparr>signal_finished := signal_finished s @ [payload], closed := True\<rparr>))
      else (Return (), s\<lparr>closed := True\<rparr>))"

subsection \<open>FramePlayer\<close>

text \<open>
  The loop of \<open>play\<close> runs on its own thread. What the other thread and the toolkit do
  during one pass of the loop is an input of that pass: the value of the viewer's busy flag
  as the pass reads it, whether \<open>pushbutton_stop_clicked\<close> ran before the loop condition is
  read again, and what \<open>slider_frames.setValue\<close> leads to. \<open>play\<close> blocks the signals of the
  list and of the two buttons only, so a slider whose value changes emits \<open>valueChanged\<close> and
  \<open>slider_frames_changed\<close> runs, with the value the slider then reports and the items the
  list reports as selected once the row has been made current; \<open>value_changed\<close> is \<open>None\<close>
  when the slider keeps its value and emits nothing. The slot is run at the call of
  \<open>setValue\<close>, before the display request that follows it; an exception ends the slot, not
  the loop. The body does not read \<open>run_player\<close>, so the moment of the click within the pass
  does not change the control flow. One pass sleeps for one polling interval. Emitting
  \<open>set_photo_signal\<close> is the request to display the frame; the slot runs on the other thread.
  Blocking the signals of the three GUI elements and setting the focus are kept as the flag
  \<open>elements_disabled\<close> or left out.
\<close>

record poll =
  busy_seen :: bool
  stop_clicked :: bool
  value_changed :: "(int \<times> item list) option"

definition play_condition :: "state \<Rightarrow> bool" where
  "play_condition s \<longleftrightarrow> frame_index s < number_original (frames s) - 1 \<and> run_player s"

definition play_body :: "poll \<Rightarrow> state \<Rightarrow> state" where
  "play_body p s =
     (if \<not> busy_seen p
      then (let s1 = s\<lparr>frame_index := frame_index s + 1\<rparr>;
                s2 = (case value_changed p of
                        None \<Rightarrow> s1
                      | Some (slider_value, selectedItems) \<Rightarrow>
                          snd (slider_frames_changed slider_value selectedItems s1))
            in s2\<lparr>set_photo_signal := set_photo_signal s2 @ [frame_index s2]\<rparr>)
      else s)"

definition play_pass :: "poll \<Rightarrow> state \<Rightarrow> state" where
  "play_pass p s =
     (let s1 = play_body p s in if stop_clicked p then pushbutton_stop_clicked s1 else s1)"

text \<open>
  The loop consumes one poll per pass. It may run forever (a busy flag that never clears):
  the result is \<open>None\<close> when the polls run out while the condition still holds.
\<close>

fun play_loop :: "poll list \<Rightarrow> state \<Rightarrow> state option" where
  "play_loop [] s = (if play_condition s then None else Some s)"
| "play_loop (p # ps) s = (if play_condition s then play_loop ps (play_pass p s) else Some s)"

definition play :: "poll list \<Rightarrow> state \<Rightarrow> state option" where
  "play polls s =
     (case play_loop polls (s\<lparr>elements_disabled := True, run_player := True\<rparr>) of
        None \<Rightarrow> None
      | Some s1 \<Rightarrow> Some (s1\<lparr>run_player := False, elements_disabled := False\<rparr>))"

subsection \<open>Sessions and properties\<close>

text \<open>The frame index lies in the interval from 0 to \<open>number_original - 1\<close>.\<close>

definition frame_index_ok :: "state \<Rightarrow> bool" where
  "frame_index_ok s \<longleftrightarrow>
     0 \<le> frame_index s \<and> frame_index s \<le> number_original (frames s) - 1"

text \<open>
  A pass in which the viewer is not busy, nobody clicks stop and the slider keeps its value,
  and a pass in which the slider moves and reports a value and the list its selected items.
\<close>

definition idle :: poll where
  "idle = \<lparr>busy_seen = False, stop_clicked = False, value_changed = None\<rparr>"

definition slider_moved :: "int \<Rightarrow> item list \<Rightarrow> poll" where
  "slider_moved slider_value selectedItems =
     \<lparr>busy_seen = False, stop_clicked = False,
      value_changed = Some (slider_value, selectedItems)\<rparr>"

text \<open>
  What the toolkit reports in a pass is in order when the slider has the range configured by
  the constructor, from 1 to \<open>frames.number\<close>, with \<open>number\<close> not above \<open>number_original\<close>, the
  value lies in this range and the items sit on rows of the list. A pass in which the
  slider emits nothing is always in order.
\<close>

definition poll_ok :: "state \<Rightarrow> poll \<Rightarrow> bool" where
  "poll_ok s p \<longleftrightarrow>
     (case value_changed p of
        None \<Rightarrow> True
      | Some (slider_value, selectedItems) \<Rightarrow>
          slider_minimum s = 1 \<and> slider_maximum s = number (frames s)
          \<and> number (frames s) \<le> number_original (frames s)
          \<and> slider_minimum s \<le> slider_value \<and> slider_value \<le> slider_maximum s
          \<and> list_all (\<lambda>it. 0 \<le> row it \<and> row it < number_original (frames s)) selectedItems)"

text \<open>
  An example session: five frames, three of them included, the committed array at address 0,
  a parent GUI and protocol level 2.
\<close>

definition example_store :: "addr \<Rightarrow> bool list" where
  "example_store = (\<lambda>a. [])(0 := [True, False, True, True, False])"

definition example_frames :: Frames where
  "example_frames = \<lparr>number_original = 5, number = 3, index_included = 0\<rparr>"

definition example_session :: state where
  "example_session = snd (init_widget True 2 [] example_store 1 example_frames)"

text \<open>
  What the user does in a session, as far as it reaches the selection and the working array:
  a click in the list, the two commands (button, context menu or key), the Escape key and a
  move of the slider. The arguments are what the toolkit reports to the handler.
\<close>

datatype command =
    SelectItems "item list"
  | UseTriggered
  | NotUseTriggered
  | EscapePressed
  | SliderChanged int "item list"

fun handle :: "command \<Rightarrow> state \<Rightarrow> unit outcome \<times> state" where
  "handle (SelectItems selectedItems) s = select_items selectedItems s"
| "handle UseTriggered s = use_triggered s"
| "handle NotUseTriggered s = not_use_triggered s"
| "handle EscapePressed s = (Return (), escape_pressed s)"
| "handle (SliderChanged slider_value selectedItems) s =
     slider_frames_changed slider_value selectedItems s"

text \<open>
  A session runs its handlers one after the other. An exception ends the handler that raised
  it and leaves the state as it was at that moment; the errors are collected and the session
  goes on. A session that stops at the first exception is covered as well: it ends in the
  state reached by a prefix of the commands.
\<close>

fun run_commands :: "command list \<Rightarrow> state \<Rightarrow> error list \<times> state" where
  "run_commands [] s = ([], s)"
| "run_commands (c # cs) s =
     (case handle c s of
        (Return u, s1) \<Rightarrow> run_commands cs s1
      | (Raise e, s1) \<Rightarrow> (case run_commands cs s1 of (es, s2) \<Rightarrow> (e # es, s2)))"

text \<open>
  The footprint of the editing handlers: of the store they write the working copy only,
  without changing its length, and they leave the \<open>Frames\<close> object, the references and
  the completion signal alone.
\<close>

definition working_copy_only :: "state \<Rightarrow> state \<Rightarrow> bool" where
  "working_copy_only s s' \<longleftrightarrow>
     frames s' = frames s \<and> self_index_included s' = self_index_included s
     \<and> parent_gui s' = parent_gui s \<and> signal_payload s' = signal_payload s
     \<and> signal_finished s' = signal_finished s \<and> closed s' = closed s
     \<and> length (arrays s' (self_index_included s)) = length (arrays s (self_index_included s))
     \<and> (\<forall>a. a \<noteq> self_index_included s \<longrightarrow> arrays s' a = arrays s a)"

text \<open>The invariant of the \<open>Frames\<close> object: \<open>number\<close> counts the true entries.\<close>

definition frames_invariant :: "state \<Rightarrow> bool" where
  "frames_invariant s \<longleftrightarrow> number (frames s) = py_sum (arrays s (index_included (frames s)))"

text \<open>
  Three states of the example session: after frames 3 and 1 were selected (in this order)
  and excluded; with rows 0 and 2 selected by a click and a click with the control key; and
  after frame 4 was selected and included in the first of them.
\<close>

definition example_excluded :: state where
  "example_excluded =
     snd (run_commands [SelectItems [Item 3, Item 1], NotUseTriggered] example_session)"

definition example_selected :: state where
  "example_selected =
     snd (run_commands [SelectItems [Item 0], SelectItems [Item 0, Item 2]] example_session)"

definition example_edited :: state where
  "example_edited = snd (run_commands [SelectItems [Item 4], UseTriggered] example_excluded)"

text \<open>
  The selection state as the specification describes it, for comparison with the code: the
  working inclusion flags and the set of selected indices. \<open>include_selected\<close> sets the flag
  of every selected index to true and leaves the other positions unchanged;
  \<open>exclude_selected\<close> sets it to false; \<open>set_selection\<close> replaces the set. A sequence of
  commands is replayed in order.
\<close>

type_synonym selection_state = "bool list \<times> int set"

definition spec_set_selection :: "int set \<Rightarrow> selection_state \<Rightarrow> selection_state" where
  "spec_set_selection indices st = (fst st, indices)"

definition spec_include_selected :: "selection_state \<Rightarrow> selection_state" where
  "spec_include_selected st =
     (case st of (working_inclusion, selected_indices) \<Rightarrow>
        (map (\<lambda>index. if int index \<in> selected_indices then True
                        else working_inclusion ! index) [0..<length working_inclusion],
         selected_indices))"

definition spec_exclude_selected :: "selection_state \<Rightarrow> selection_state" where
  "spec_exclude_selected st =
     (case st of (working_inclusion, selected_indices) \<Rightarrow>
        (map (\<lambda>index. if int index \<in> selected_indices then False
                        else working_inclusion ! index) [0..<length working_inclusion],
         selected_indices))"

fun spec_step :: "command \<Rightarrow> selection_state \<Rightarrow> selection_state" where
  "spec_step (SelectItems selectedItems) st = spec_set_selection (set (map row selectedItems)) st"
| "spec_step UseTriggered st = spec_include_selected st"
| "spec_step NotUseTriggered st = spec_exclude_selected st"
| "spec_step EscapePressed st = spec_set_selection {} st"
| "spec_step (SliderChanged slider_value selectedItems) st =
     spec_set_selection (set (map row selectedItems)) st"

fun spec_replay :: "command list \<Rightarrow> selection_state \<Rightarrow> selection_state" where
  "spec_replay [] st = st"
| "spec_replay (c # cs) st = spec_replay cs (spec_step c st)"

text \<open>The selection state of a session of the code.\<close>

definition selected_of :: "state \<Rightarrow> int set" where
  "selected_of s = (case indices_selected s of None \<Rightarrow> {} | Some indices \<Rightarrow> set indices)"

definition selection_of :: "state \<Rightarrow> selection_state" where
  "selection_of s = (arrays s (self_index_included s), selected_of s)"

text \<open>
  A session is in order when the viewer shares the working copy, the frame index is an index
  of the working copy, and the two selection attributes were assigned together from items
  on rows of the list. A command is in order when the items it reports are on rows of the
  list; a click or a slider move that reports no item at all is the failing case of
  \<open>select_items\<close>.
\<close>

definition rows_ok :: "nat \<Rightarrow> item list \<Rightarrow> bool" where
  "rows_ok n items = list_all (\<lambda>it. 0 \<le> row it \<and> row it < int n) items"

definition session_ok :: "state \<Rightarrow> bool" where
  "session_ok s \<longleftrightarrow>
     viewer_index_included s = self_index_included s
     \<and> 0 \<le> frame_index s
     \<and> frame_index s < int (length (arrays s (self_index_included s)))
     \<and> (case items_selected s of
           None \<Rightarrow> indices_selected s = None
         | Some items \<Rightarrow> indices_selected s = Some (map row items)
             \<and> rows_ok (length (arrays s (self_index_included s))) items)"

fun command_ok :: "nat \<Rightarrow> command \<Rightarrow> bool" where
  "command_ok n (SelectItems selectedItems) \<longleftrightarrow> selectedItems \<noteq> [] \<and> rows_ok n selectedItems"
| "command_ok n (SliderChanged slider_value selectedItems) \<longleftrightarrow>
     selectedItems \<noteq> [] \<and> rows_ok n selectedItems"
| "command_ok n c \<longleftrightarrow> True"

text \<open>The working array with the flag written at the given rows.\<close>

definition mark :: "bool \<Rightarrow> int set \<Rightarrow> bool list \<Rightarrow> bool list" where
  "mark flag rows W = map (\<lambda>j. if int j \<in> rows then flag else W ! j) [0..<length W]"

section \<open>Facts about the example session\<close>

lemma example_init_returns:
  "fst (init_widget True 2 [] example_store 1 example_frames) = Return ()"
  by (simp add: init_widget_def example_store_def example_frames_def py_range_def setPhoto_def
      getitem_def py_index_def FrameViewer_setPhoto_def upt_conv_Cons)

lemma example_session_fields:
  "frames example_session = example_frames"
  "frame_index example_session = 0"
  "self_index_included example_session = 1"
  "viewer_index_included example_session = 1"
  "arrays example_session 0 = [True, False, True, True, False]"
  "arrays example_session (Suc 0) = [True, False, True, True, False]"
  "items_selected example_session = None"
  "indices_selected example_session = None"
  "slider_minimum example_session = 1"
  "slider_maximum example_session = 3"
  "parent_gui example_session"
  "global_parameters_protocol_level example_session = 2"
  "stacked_image_log_file example_session = [StartSelecting]"
  "set_photo_signal example_session = []"
  "signal_finished example_session = []"
  "signal_payload example_session = None"
  "\<not> closed example_session"
  by (simp_all add: example_session_def init_widget_def example_store_def example_frames_def
      py_range_def setPhoto_def getitem_def py_index_def FrameViewer_setPhoto_def upt_conv_Cons)

section \<open>Indexing\<close>

lemma getitem_nat:
  "0 \<le> i \<Longrightarrow> i < int (length xs) \<Longrightarrow> getitem xs i = Inr (xs ! nat i)"
  by (simp add: getitem_def py_index_def)

lemma setitem_nat:
  "0 \<le> i \<Longrightarrow> i < int (length xs) \<Longrightarrow> setitem xs i v = Inr (xs[nat i := v])"
  by (simp add: setitem_def py_index_def)

lemma setitem_length: "setitem xs i v = Inr ys \<Longrightarrow> length ys = length xs"
  by (auto simp add: setitem_def split: sum.splits)

lemma getitem_first: "getitem xs 0 = (case xs of [] \<Rightarrow> Inl IndexError | x # _ \<Rightarrow> Inr x)"
  by (cases xs) (simp_all add: getitem_def py_index_def)

lemma set_py_range: "set (py_range n) = {i. 0 \<le> i \<and> i < n}"
proof -
  have "i \<in> int ` {0..<nat n}" if "0 \<le> i" "i < n" for i
  proof -
    from that have "nat i \<in> {0..<nat n}" and "i = int (nat i)" by simp_all
    then show ?thesis by (rule_tac image_eqI)
  qed
  then show ?thesis by (auto simp add: py_range_def)
qed

lemma sorted_py_range: "sorted_wrt (<) (py_range n)"
  by (simp add: py_range_def sorted_wrt_map)

lemma distinct_py_range: "distinct (py_range n)"
  by (simp add: py_range_def distinct_map inj_on_def)

lemma upt_5: "[0..<5] = [0, 1, 2, 3, 4]"
  by (simp add: upt_conv_Cons)

section \<open>What the editing handlers write\<close>

lemma working_copy_only_refl: "working_copy_only s s"
  by (simp add: working_copy_only_def)

lemma working_copy_only_trans:
  "working_copy_only s s1 \<Longrightarrow> working_copy_only s1 s2 \<Longrightarrow> working_copy_only s s2"
  by (simp add: working_copy_only_def)

lemma setPhoto_frame: "working_copy_only s (snd (setPhoto i s))"
  by (simp add: working_copy_only_def setPhoto_def Let_def FrameViewer_setPhoto_def split: sum.splits)

lemma setPhoto_frame_index: "frame_index (snd (setPhoto i s)) = frame_index s"
  by (simp add: setPhoto_def Let_def FrameViewer_setPhoto_def split: sum.splits)

lemma setPhoto_ok:
  "0 \<le> i \<Longrightarrow> i < int (length (arrays s (viewer_index_included s))) \<Longrightarrow>
   setPhoto i s = (Return (), s\<lparr>photos := photos s
       @ [(i, \<not> arrays s (viewer_index_included s) ! nat i)], image_loading_busy := False\<rparr>)"
  by (simp add: setPhoto_def Let_def getitem_nat FrameViewer_setPhoto_def)

lemma setPhoto_keeps:
  "frames (snd (setPhoto i s)) = frames s"
  "arrays (snd (setPhoto i s)) = arrays s"
  "slider_minimum (snd (setPhoto i s)) = slider_minimum s"
  "slider_maximum (snd (setPhoto i s)) = slider_maximum s"
  "viewer_index_included (snd (setPhoto i s)) = viewer_index_included s"
  "run_player (snd (setPhoto i s)) = run_player s"
  by (simp_all add: setPhoto_def Let_def FrameViewer_setPhoto_def split: sum.splits)

lemma select_items_keeps:
  "frames (snd (select_items sel s)) = frames s"
  "arrays (snd (select_items sel s)) = arrays s"
  "slider_minimum (snd (select_items sel s)) = slider_minimum s"
  "slider_maximum (snd (select_items sel s)) = slider_maximum s"
  "viewer_index_included (snd (select_items sel s)) = viewer_index_included s"
  "run_player (snd (select_items sel s)) = run_player s"
  by (simp_all add: select_items_def Let_def setPhoto_keeps split: sum.splits)

lemma slider_frames_changed_keeps:
  "frames (snd (slider_frames_changed v sel s)) = frames s"
  "arrays (snd (slider_frames_changed v sel s)) = arrays s"
  "slider_minimum (snd (slider_frames_changed v sel s)) = slider_minimum s"
  "slider_maximum (snd (slider_frames_changed v sel s)) = slider_maximum s"
  "viewer_index_included (snd (slider_frames_changed v sel s)) = viewer_index_included s"
  "run_player (snd (slider_frames_changed v sel s)) = run_player s"
proof -
  let ?t = "select_items sel (s\<lparr>frame_index := v - 1\<rparr>)"
  have unfold: "snd (slider_frames_changed v sel s) =
      (case fst ?t of Raise e \<Rightarrow> snd ?t
       | Return u \<Rightarrow> snd (setPhoto (frame_index (snd ?t)) (snd ?t)))"
    by (cases "fst ?t") (simp_all add: slider_frames_changed_def Let_def split_beta)
  show "frames (snd (slider_frames_changed v sel s)) = frames s"
    "arrays (snd (slider_frames_changed v sel s)) = arrays s"
    "slider_minimum (snd (slider_frames_changed v sel s)) = slider_minimum s"
    "slider_maximum (snd (slider_frames_changed v sel s)) = slider_maximum s"
    "viewer_index_included (snd (slider_frames_changed v sel s)) = viewer_index_included s"
    "run_player (snd (slider_frames_changed v sel s)) = run_player s"
    by (simp_all add: unfold select_items_keeps setPhoto_keeps split: outcome.splits)
qed

lemma select_items_frame: "working_copy_only s (snd (select_items sel s))"
proof (cases "getitem (map row sel) 0")
  case (Inl e)
  then show ?thesis by (simp add: select_items_def working_copy_only_def)
next
  case (Inr first)
  let ?s2 = "s\<lparr>items_selected := Some sel, indices_selected := Some (map row sel),
                 frame_index := first\<rparr>"
  have "working_copy_only s ?s2" by (simp add: working_copy_only_def)
  moreover have "working_copy_only ?s2 (snd (setPhoto first ?s2))" by (rule setPhoto_frame)
  ultimately show ?thesis using Inr
    by (simp add: select_items_def working_copy_only_trans)
qed

lemma triggered_loop_frame: "working_copy_only s (snd (triggered_loop flag ps s))"
proof (induction ps arbitrary: s)
  case Nil
  show ?case by (simp add: working_copy_only_refl)
next
  case (Cons p ps)
  show ?case
  proof (cases "indices_selected s")
    case None
    then show ?thesis by (simp add: working_copy_only_refl)
  next
    case (Some indices)
    show ?thesis
    proof (cases "getitem indices p")
      case (Inl e)
      with Some show ?thesis by (simp add: working_copy_only_refl)
    next
      case (Inr r)
      show ?thesis
      proof (cases "setitem (arrays s (self_index_included s)) r flag")
        case (Inl e)
        with Some Inr show ?thesis by (simp add: working_copy_only_refl)
      next
        case upd: (Inr updated)
        let ?s1 = "s\<lparr>arrays := (arrays s)(self_index_included s := updated)\<rparr>"
        let ?s2 = "snd (setPhoto (frame_index s) ?s1)"
        have a: "working_copy_only s ?s1"
          using upd by (simp add: working_copy_only_def setitem_length)
        have b: "working_copy_only ?s1 ?s2" by (rule setPhoto_frame)
        have ab: "working_copy_only s ?s2" by (rule working_copy_only_trans [OF a b])
        show ?thesis
        proof (cases "fst (setPhoto (frame_index s) ?s1)")
          case (Raise e)
          with Some Inr upd ab show ?thesis
            by (simp add: split_beta)
        next
          case (Return u)
          have "working_copy_only ?s2 (snd (triggered_loop flag ps ?s2))" by (rule Cons.IH)
          with ab have "working_copy_only s (snd (triggered_loop flag ps ?s2))"
            by (rule working_copy_only_trans)
          with Some Inr upd Return show ?thesis
            by (simp add: split_beta)
        qed
      qed
    qed
  qed
qed

lemma triggered_frame: "working_copy_only s (snd (triggered flag s))"
  by (simp add: triggered_def working_copy_only_refl triggered_loop_frame
      split: option.splits list.splits)

lemma slider_frames_changed_frame:
  "working_copy_only s (snd (slider_frames_changed v sel s))"
proof -
  let ?s1 = "s\<lparr>frame_index := v - 1\<rparr>"
  let ?s2 = "snd (select_items sel ?s1)"
  have a: "working_copy_only s ?s1" by (simp add: working_copy_only_def)
  have b: "working_copy_only ?s1 ?s2" by (rule select_items_frame)
  have ab: "working_copy_only s ?s2" by (rule working_copy_only_trans [OF a b])
  have c: "working_copy_only ?s2 (snd (setPhoto (frame_index ?s2) ?s2))" by (rule setPhoto_frame)
  show ?thesis
  proof (cases "fst (select_items sel ?s1)")
    case (Raise e)
    with ab show ?thesis by (simp add: slider_frames_changed_def Let_def split_beta)
  next
    case (Return u)
    with working_copy_only_trans [OF ab c] show ?thesis
      by (simp add: slider_frames_changed_def Let_def split_beta)
  qed
qed

lemma handle_frame: "working_copy_only s (snd (handle c s))"
proof (cases c)
  case EscapePressed
  then show ?thesis by (simp add: escape_pressed_def working_copy_only_def)
qed (simp_all add: select_items_frame triggered_frame use_triggered_def not_use_triggered_def
      slider_frames_changed_frame)

lemma run_commands_frame: "working_copy_only s (snd (run_commands cs s))"
proof (induction cs arbitrary: s)
  case Nil
  show ?case by (simp add: working_copy_only_refl)
next
  case (Cons c cs)
  have "working_copy_only s (snd (handle c s))" by (rule handle_frame)
  moreover have "working_copy_only (snd (handle c s)) (snd (run_commands cs (snd (handle c s))))"
    by (rule Cons.IH)
  ultimately have "working_copy_only s (snd (run_commands cs (snd (handle c s))))"
    by (rule working_copy_only_trans)
  then show ?case
    by (cases "handle c s"; cases "fst (handle c s)") (auto split: prod.splits)
qed

lemma init_widget_fields:
  "frames (snd (init_widget parent level log_file store free fr)) = fr"
  "self_index_included (snd (init_widget parent level log_file store free fr)) = free"
  "parent_gui (snd (init_widget parent level log_file store free fr)) = parent"
  "signal_payload (snd (init_widget parent level log_file store free fr)) = None"
  "signal_finished (snd (init_widget parent level log_file store free fr)) = []"
  "\<not> closed (snd (init_widget parent level log_file store free fr))"
  "a \<noteq> free \<Longrightarrow> arrays (snd (init_widget parent level log_file store free fr)) a = store a"
  by (simp_all add: init_widget_def Let_def setPhoto_def FrameViewer_setPhoto_def
      split: option.splits sum.splits)

text \<open>
  When the constructor returns normally the session is in order; and in every session,
  whatever commands ran, the working copy and the committed array sit in different cells and
  have the length the committed array had when the session was opened.
\<close>

lemma init_widget_session_ok:
  assumes "fst (init_widget parent level log_file store free fr) = Return ()"
  shows "session_ok (snd (init_widget parent level log_file store free fr))"
proof -
  have "0 < length xs" if "getitem xs 0 = Inr b" for xs :: "bool list" and b
    using that by (cases xs) (simp_all add: getitem_first)
  then show ?thesis using assms
    by (auto simp add: init_widget_def Let_def setPhoto_def FrameViewer_setPhoto_def
        session_ok_def split: option.splits sum.splits)
qed

lemma session_arrays:
  assumes "index_included fr < free"
    and "s = snd (run_commands cmds (snd (init_widget parent level log_file store free fr)))"
  shows "self_index_included s \<noteq> index_included (frames s)"
    and "length (arrays s (self_index_included s)) = length (store (index_included fr))"
    and "arrays s (index_included (frames s)) = store (index_included fr)"
proof -
  let ?s0 = "snd (init_widget parent level log_file store free fr)"
  have f: "working_copy_only ?s0 s" unfolding assms(2) by (rule run_commands_frame)
  have len0: "length (arrays ?s0 free) = length (store (index_included fr))"
    by (simp add: init_widget_def Let_def setPhoto_def FrameViewer_setPhoto_def
        split: option.splits sum.splits)
  from f assms(1) show "self_index_included s \<noteq> index_included (frames s)"
    by (simp add: working_copy_only_def init_widget_fields)
  from f len0 show "length (arrays s (self_index_included s)) = length (store (index_included fr))"
    by (simp add: working_copy_only_def init_widget_fields)
  from f assms(1) show "arrays s (index_included (frames s)) = store (index_included fr)"
    by (simp add: working_copy_only_def init_widget_fields)
qed

section \<open>The edited example sessions\<close>

lemma example_excluded_fields:
  "frames example_excluded = example_frames"
  "self_index_included example_excluded = 1"
  "arrays example_excluded 0 = [True, False, True, True, False]"
  "arrays example_excluded (Suc 0) = [True, False, True, False, False]"
  "frame_index example_excluded = 3"
  "viewer_index_included example_excluded = 1"
  "parent_gui example_excluded"
  "global_parameters_protocol_level example_excluded = 2"
  "stacked_image_log_file example_excluded = [StartSelecting]"
  "signal_finished example_excluded = []"
  "fst (run_commands [SelectItems [Item 3, Item 1], NotUseTriggered] example_session) = []"
  by (simp_all add: example_excluded_def select_items_def Let_def getitem_first setPhoto_ok
      not_use_triggered_def triggered_def py_range_def upt_conv_Cons getitem_nat setitem_nat
      example_session_fields)

lemma example_selected_fields:
  "frames example_selected = example_frames"
  "frame_index example_selected = 0"
  "items_selected example_selected = Some [Item 0, Item 2]"
  "indices_selected example_selected = Some [0, 2]"
  "fst (run_commands [SelectItems [Item 0], SelectItems [Item 0, Item 2]] example_session) = []"
  by (simp_all add: example_selected_def select_items_def Let_def getitem_first setPhoto_ok
      example_session_fields)

lemma example_edited_fields:
  "frames example_edited = example_frames"
  "self_index_included example_edited = 1"
  "arrays example_edited 0 = [True, False, True, True, False]"
  "arrays example_edited (Suc 0) = [True, False, True, False, True]"
  "parent_gui example_edited"
  "global_parameters_protocol_level example_edited = 2"
  "stacked_image_log_file example_edited = [StartSelecting]"
  "signal_finished example_edited = []"
  by (simp_all add: example_edited_def select_items_def Let_def getitem_first setPhoto_ok
      use_triggered_def triggered_def py_range_def upt_conv_Cons getitem_nat setitem_nat
      example_excluded_fields)

section \<open>Cancelling the session\<close>

text \<open>
  C10. In a session with a parent GUI, whatever the user did before, \<open>reject\<close> raises
  \<open>AttributeError\<close> at the read of \<open>signal_payload\<close>, which no handler assigns: the state
  is as before the call, so no completion signal is emitted and the window is not closed.
\<close>

theorem reject_raises_attribute_error:
  "reject (snd (run_commands cmds (snd (init_widget True level log_file store free fr))))
     = (Raise AttributeError,
        snd (run_commands cmds (snd (init_widget True level log_file store free fr))))
   \<and> \<not> closed (snd (run_commands cmds (snd (init_widget True level log_file store free fr))))
   \<and> signal_finished (snd (run_commands cmds (snd (init_widget True level log_file store free fr)))) = []"
proof -
  let ?s0 = "snd (init_widget True level log_file store free fr)"
  have "working_copy_only ?s0 (snd (run_commands cmds ?s0))" by (rule run_commands_frame)
  then show ?thesis
    by (simp add: working_copy_only_def init_widget_fields reject_def)
qed

theorem reject_raises_attribute_error_witness:
  "fst (reject example_excluded) = Raise AttributeError \<and> \<not> closed example_excluded"
  using reject_raises_attribute_error [of "[SelectItems [Item 3, Item 1], NotUseTriggered]"
      2 "[]" example_store 1 example_frames]
  by (simp add: example_excluded_def example_session_def)

text \<open>
  C4. Whatever commands ran in the session, after \<open>reject\<close> the \<open>Frames\<close> object (with
  \<open>number\<close>) and its inclusion array are as they were when the session was opened. The
  committed array was allocated before the session, so its address is below the free one.
\<close>

theorem reject_leaves_frames:
  assumes "index_included fr < free"
    and "s0 = snd (init_widget parent level log_file store free fr)"
    and "s1 = snd (run_commands cmds s0)"
    and "s2 = snd (reject s1)"
  shows "frames s2 = fr \<and> arrays s2 (index_included (frames s2)) = store (index_included fr)"
proof -
  have "working_copy_only s0 s1" unfolding assms(3) by (rule run_commands_frame)
  moreover have "frames s2 = frames s1 \<and> arrays s2 = arrays s1"
    unfolding assms(4) by (simp add: reject_def split: option.splits)
  ultimately show ?thesis using assms(1)
    by (simp add: working_copy_only_def assms(2) init_widget_fields)
qed

theorem reject_leaves_frames_witness:
  "index_included example_frames < 1
   \<and> frames (snd (reject example_excluded)) = example_frames
   \<and> arrays (snd (reject example_excluded))
        (index_included (frames (snd (reject example_excluded))))
      = example_store (index_included example_frames)
   \<and> arrays example_excluded (self_index_included example_excluded)
      \<noteq> example_store (index_included example_frames)"
proof -
  have lt: "index_included example_frames < 1" by (simp add: example_frames_def)
  have s1: "example_excluded = snd (run_commands [SelectItems [Item 3, Item 1], NotUseTriggered]
      (snd (init_widget True 2 [] example_store 1 example_frames)))"
    by (simp only: example_excluded_def example_session_def)
  have "frames (snd (reject example_excluded)) = example_frames
     \<and> arrays (snd (reject example_excluded))
          (index_included (frames (snd (reject example_excluded))))
        = example_store (index_included example_frames)"
    by (rule reject_leaves_frames [OF lt refl s1 refl])
  moreover have "arrays example_excluded (self_index_included example_excluded)
      \<noteq> example_store (index_included example_frames)"
    by (simp add: example_excluded_fields example_frames_def example_store_def)
  ultimately show ?thesis using lt by blast
qed

section \<open>Selecting items\<close>

lemma select_items_frame_index:
  "sel \<noteq> [] \<Longrightarrow> frame_index (snd (select_items sel s)) = row (hd sel)"
  by (cases sel) (simp_all add: select_items_def Let_def getitem_first setPhoto_frame_index)

lemma select_items_selection:
  "items_selected (snd (select_items sel s)) = Some sel
   \<and> indices_selected (snd (select_items sel s)) = Some (map row sel)"
  by (cases sel) (simp_all add: select_items_def Let_def getitem_first setPhoto_def
      FrameViewer_setPhoto_def split: sum.splits)

lemma select_items_empty:
  "select_items [] s = (Raise IndexError, s\<lparr>items_selected := Some [], indices_selected := Some []\<rparr>)"
  by (simp add: select_items_def Let_def getitem_first)

lemma slider_frames_changed_frame_index:
  "sel \<noteq> [] \<Longrightarrow> frame_index (snd (slider_frames_changed v sel s)) = row (hd sel)"
  by (cases "fst (select_items sel (s\<lparr>frame_index := v - 1\<rparr>))")
     (simp_all add: slider_frames_changed_def Let_def split_beta select_items_frame_index
       setPhoto_frame_index)

text \<open>
  C5, as stated, fails: the selection 3, 1 (item 3 picked first, then item 1) moves the frame
  index to 3, while the minimum of the selected rows is 1. The call returns normally.
\<close>

theorem select_items_not_minimum:
  "frame_index (snd (select_items [Item 3, Item 1] example_session)) = 3
   \<and> Min (set (map row [Item 3, Item 1])) = 1
   \<and> fst (select_items [Item 3, Item 1] example_session) = Return ()"
  by (simp add: select_items_frame_index select_items_def Let_def getitem_first setPhoto_ok
      example_session_fields)

text \<open>
  C5, amended. For a non-empty selection \<open>select_items\<close> replaces the selected items and rows
  and sets the frame index to the first row of the selection, in the order in which the list
  widget reports the items; that is the minimum when the rows are reported in ascending
  order. For an empty selection the call fails with \<open>IndexError\<close>, after both selection
  attributes have been replaced by the empty list.
\<close>

theorem select_items_first:
  "(selectedItems \<noteq> [] \<longrightarrow>
      items_selected (snd (select_items selectedItems s)) = Some selectedItems
      \<and> indices_selected (snd (select_items selectedItems s)) = Some (map row selectedItems)
      \<and> frame_index (snd (select_items selectedItems s)) = row (hd selectedItems)
      \<and> (sorted (map row selectedItems) \<longrightarrow>
           frame_index (snd (select_items selectedItems s)) = Min (set (map row selectedItems))))
   \<and> (selectedItems = [] \<longrightarrow>
        select_items selectedItems s
          = (Raise IndexError, s\<lparr>items_selected := Some [], indices_selected := Some []\<rparr>))"
proof -
  have "Min (set (map row selectedItems)) = row (hd selectedItems)"
    if "selectedItems \<noteq> []" "sorted (map row selectedItems)"
  proof -
    from that obtain x xs where sel: "selectedItems = x # xs" by (cases selectedItems) auto
    with that(2) have "\<forall>y \<in> set (map row xs). row x \<le> y" by simp
    then have "Min (insert (row x) (set (map row xs))) = row x"
      by (intro Min_eqI) auto
    with sel show ?thesis by simp
  qed
  then show ?thesis
    by (simp add: select_items_frame_index select_items_selection select_items_empty)
qed

theorem select_items_first_witness:
  "[Item 2, Item 4] \<noteq> []
   \<and> items_selected (snd (select_items [Item 2, Item 4] example_session)) = Some [Item 2, Item 4]
   \<and> indices_selected (snd (select_items [Item 2, Item 4] example_session)) = Some [2, 4]
   \<and> frame_index (snd (select_items [Item 2, Item 4] example_session)) = 2
   \<and> sorted (map row [Item 2, Item 4])
   \<and> Min (set (map row [Item 2, Item 4])) = 2
   \<and> fst (select_items [] example_session) = Raise IndexError"
  using select_items_first [of "[Item 2, Item 4]" example_session]
    select_items_first [of "[]" example_session]
  by simp

section \<open>The playback loop\<close>

lemma play_loop_stopped: "\<not> play_condition s \<Longrightarrow> play_loop ps s = Some s"
  by (cases ps) simp_all

lemma play_pass_stop: "stop_clicked p \<Longrightarrow> \<not> play_condition (play_pass p s)"
  by (simp add: play_pass_def play_condition_def pushbutton_stop_clicked_def)

lemma play_loop_stop:
  "stop_clicked p \<Longrightarrow>
     play_loop (qs @ p # rs) s = play_loop (qs @ [p]) s \<and> play_loop (qs @ [p]) s \<noteq> None"
proof (induction qs arbitrary: s)
  case Nil
  then show ?case by (simp add: play_loop_stopped play_pass_stop)
next
  case (Cons q qs)
  then show ?case by simp
qed

text \<open>
  What a pass leaves alone: the \<open>Frames\<close> object, the store, the range of the slider and the
  viewer's reference; without a stop click also the run flag.
\<close>

lemma play_body_keeps:
  "frames (play_body p s) = frames s"
  "arrays (play_body p s) = arrays s"
  "slider_minimum (play_body p s) = slider_minimum s"
  "slider_maximum (play_body p s) = slider_maximum s"
  "viewer_index_included (play_body p s) = viewer_index_included s"
  "run_player (play_body p s) = run_player s"
  by (simp_all add: play_body_def Let_def slider_frames_changed_keeps
      split: option.splits prod.splits)

lemma play_pass_keeps:
  "frames (play_pass p s) = frames s"
  "arrays (play_pass p s) = arrays s"
  "slider_minimum (play_pass p s) = slider_minimum s"
  "slider_maximum (play_pass p s) = slider_maximum s"
  "viewer_index_included (play_pass p s) = viewer_index_included s"
  "\<not> stop_clicked p \<Longrightarrow> run_player (play_pass p s) = run_player s"
  by (simp_all add: play_pass_def Let_def pushbutton_stop_clicked_def play_body_keeps)

text \<open>
  C6. Started with the frame index at \<open>number_original - 1\<close>, \<open>play\<close> returns at once, whatever
  the other thread does: the loop body is never entered, the frame index and the list of
  display requests are as before, and the run flag is false.
\<close>

theorem play_at_last_frame:
  assumes "frame_index s = number_original (frames s) - 1"
  shows "play polls s = Some (s\<lparr>elements_disabled := False, run_player := False\<rparr>)"
  using assms by (cases polls) (simp_all add: play_def play_condition_def)

theorem play_at_last_frame_witness:
  "frame_index (example_session\<lparr>frame_index := 4\<rparr>)
     = number_original (frames (example_session\<lparr>frame_index := 4\<rparr>)) - 1
   \<and> play [idle, idle] (example_session\<lparr>frame_index := 4\<rparr>)
     = Some (example_session\<lparr>frame_index := 4, elements_disabled := False,
               run_player := False\<rparr>)"
  using play_at_last_frame [of "example_session\<lparr>frame_index := 4\<rparr>" "[idle, idle]"]
  by (simp add: example_session_fields example_frames_def)

text \<open>
  In the example session, where no row is selected, the list reports the row made current
  as its only selected item. The slider has the range 1 to 3: it moves in the first two
  passes and keeps its value in the last two. The loop then returns after four passes, at
  index 4, with the display requests 1, 2, 3, 4.
\<close>

lemma example_play_follows:
  "map_option (\<lambda>s. (frame_index s, set_photo_signal s, run_player s))
     (play [slider_moved 2 [Item 1], slider_moved 3 [Item 2], idle, idle] example_session)
   = Some (4, [1, 2, 3, 4], False)"
  by (simp add: play_def play_condition_def play_pass_def play_body_def slider_moved_def
      idle_def slider_frames_changed_def select_items_def Let_def getitem_first setPhoto_ok
      example_session_fields example_frames_def)

text \<open>
  A pass in which the list reports row 0 first among its selected items leaves the frame
  index at 0, whatever it was; a loop of such passes never ends.
\<close>

lemma play_pass_pulled_back:
  "frame_index (play_pass (slider_moved v (Item 0 # rest)) s) = 0"
  by (simp add: play_pass_def play_body_def slider_moved_def Let_def
      slider_frames_changed_frame_index)

lemma play_loop_pulled_back:
  "1 < number_original (frames s) \<Longrightarrow> frame_index s = 0 \<Longrightarrow> run_player s \<Longrightarrow>
   play_loop (replicate n (slider_moved v (Item 0 # rest))) s = None"
proof (induction n arbitrary: s)
  case 0
  then show ?case by (simp add: play_condition_def)
next
  case (Suc n)
  let ?p = "slider_moved v (Item 0 # rest)"
  have "\<not> stop_clicked ?p" by (simp add: slider_moved_def)
  then have "run_player (play_pass ?p s)" using Suc.prems(3) by (simp add: play_pass_keeps)
  moreover have "1 < number_original (frames (play_pass ?p s))"
    using Suc.prems(1) by (simp add: play_pass_keeps)
  ultimately have "play_loop (replicate n ?p) (play_pass ?p s) = None"
    by (intro Suc.IH) (simp_all add: play_pass_pulled_back)
  with Suc.prems show ?case by (simp add: play_condition_def)
qed

text \<open>
  C7 fails on the code. With five frames and the frame index at 0, with stop never clicked
  and the viewer never busy, a session in which row 0 stays first among the selected items
  (rows 0 and 2 were selected with a click and a click with the control key) is pulled back
  in every pass: the loop advances to 1, the slider moves and emits \<open>valueChanged\<close>,
  \<open>slider_frames_changed\<close> calls \<open>select_items\<close>, which sets the frame index to the first
  selected row, 0. The loop does not return, however many passes it is given, and the
  index 4 is never reached.
\<close>

theorem play_pulled_back:
  assumes "number_original (frames s) = 5" and "frame_index s = 0"
  shows "play (replicate n (slider_moved v (Item 0 # rest))) s = None
     \<and> frame_index (play_pass (slider_moved v (Item 0 # rest)) s) = 0"
proof -
  let ?s0 = "s\<lparr>elements_disabled := True, run_player := True\<rparr>"
  have "play_loop (replicate n (slider_moved v (Item 0 # rest))) ?s0 = None"
    using assms by (intro play_loop_pulled_back) simp_all
  then show ?thesis by (simp add: play_def play_pass_pulled_back)
qed

theorem play_pulled_back_witness:
  "number_original (frames example_selected) = 5 \<and> frame_index example_selected = 0
   \<and> indices_selected example_selected = Some [0, 2]
   \<and> play [slider_moved 2 [Item 0, Item 1], slider_moved 2 [Item 0, Item 1],
            slider_moved 2 [Item 0, Item 1], slider_moved 2 [Item 0, Item 1]] example_selected
      = None
   \<and> frame_index (play_pass (slider_moved 2 [Item 0, Item 1]) example_selected) = 0"
  using play_pulled_back [of example_selected "Suc (Suc (Suc (Suc 0)))" 2 "[Item 1]"]
  by (simp add: example_selected_fields example_frames_def)

text \<open>
  C8. When stop is clicked during a pass of the loop, the loop ends at the next reading of
  its condition, that is within the polling interval of that pass: \<open>play\<close> returns, its
  result is the one reached with the passes up to and including this one, and nothing that
  the other thread does in later polling intervals changes the frame index or any other
  part of the result.
\<close>

theorem stop_ends_playback:
  assumes "stop_clicked p"
  shows "play (qs @ p # rs) s = play (qs @ [p]) s
         \<and> (\<exists>s'. play (qs @ [p]) s = Some s' \<and> \<not> run_player s')"
proof -
  let ?s0 = "s\<lparr>elements_disabled := True, run_player := True\<rparr>"
  from play_loop_stop [OF assms, of qs rs ?s0]
  have eq: "play_loop (qs @ p # rs) ?s0 = play_loop (qs @ [p]) ?s0"
    and some: "play_loop (qs @ [p]) ?s0 \<noteq> None" by simp_all
  from some obtain s1 where "play_loop (qs @ [p]) ?s0 = Some s1" by auto
  with eq show ?thesis by (simp add: play_def)
qed

theorem stop_ends_playback_witness:
  "stop_clicked \<lparr>busy_seen = False, stop_clicked = True, value_changed = None\<rparr>
   \<and> play ([slider_moved 2 [Item 1]]
            @ \<lparr>busy_seen = False, stop_clicked = True, value_changed = None\<rparr>
            # [idle, idle]) example_session
     = play ([slider_moved 2 [Item 1]]
            @ [\<lparr>busy_seen = False, stop_clicked = True, value_changed = None\<rparr>])
         example_session
   \<and> (\<exists>s'. play ([slider_moved 2 [Item 1]]
            @ [\<lparr>busy_seen = False, stop_clicked = True, value_changed = None\<rparr>])
         example_session = Some s' \<and> \<not> run_player s')"
  using stop_ends_playback [of "\<lparr>busy_seen = False, stop_clicked = True, value_changed = None\<rparr>"
      "[slider_moved 2 [Item 1]]" "[idle, idle]" example_session]
  by simp

section \<open>The range of the frame index\<close>

lemma select_items_ok:
  assumes "frame_index_ok s"
    and "\<forall>it \<in> set sel. 0 \<le> row it \<and> row it < number_original (frames s)"
  shows "frame_index_ok (snd (select_items sel s))"
proof (cases sel)
  case Nil
  with assms(1) show ?thesis by (simp add: select_items_empty frame_index_ok_def)
next
  case (Cons x xs)
  have "frames (snd (select_items sel s)) = frames s"
    using select_items_frame [of s sel] by (simp add: working_copy_only_def)
  moreover have "frame_index (snd (select_items sel s)) = row x"
    using Cons by (simp add: select_items_frame_index)
  ultimately show ?thesis using assms(2) Cons by (simp add: frame_index_ok_def)
qed

lemma slider_frames_changed_ok:
  assumes "slider_minimum s = 1 \<and> slider_maximum s = number (frames s)
       \<and> number (frames s) \<le> number_original (frames s)
       \<and> slider_minimum s \<le> v \<and> v \<le> slider_maximum s
       \<and> (\<forall>it \<in> set sel. 0 \<le> row it \<and> row it < number_original (frames s))"
  shows "frame_index_ok (s\<lparr>frame_index := v - 1\<rparr>)"
    and "frame_index_ok (snd (slider_frames_changed v sel s))"
proof -
  let ?s1 = "s\<lparr>frame_index := v - 1\<rparr>"
  from assms show s1: "frame_index_ok ?s1" by (simp add: frame_index_ok_def)
  from assms have "\<forall>it \<in> set sel. 0 \<le> row it \<and> row it < number_original (frames ?s1)"
    by simp
  with s1 have s2: "frame_index_ok (snd (select_items sel ?s1))" by (rule select_items_ok)
  have "frame_index_ok (snd (setPhoto i t))" if "frame_index_ok t" for i t
    using that by (simp add: frame_index_ok_def setPhoto_keeps setPhoto_frame_index)
  with s2 show "frame_index_ok (snd (slider_frames_changed v sel s))"
    by (cases "fst (select_items sel ?s1)")
       (simp_all add: slider_frames_changed_def Let_def split_beta)
qed

lemma poll_ok_cong:
  "frames s' = frames s \<Longrightarrow> slider_minimum s' = slider_minimum s \<Longrightarrow>
   slider_maximum s' = slider_maximum s \<Longrightarrow> poll_ok s' p = poll_ok s p"
  by (simp add: poll_ok_def split: option.splits prod.splits)

lemma play_pass_ok:
  assumes "play_condition s" and "frame_index_ok s" and "poll_ok s p"
  shows "frame_index_ok (play_pass p s)"
proof -
  let ?s1 = "s\<lparr>frame_index := frame_index s + 1\<rparr>"
  have s1: "frame_index_ok ?s1"
    using assms(1,2) by (simp add: play_condition_def frame_index_ok_def)
  have body: "frame_index_ok (play_body p s)"
  proof (cases "busy_seen p")
    case True
    with assms(2) show ?thesis by (simp add: play_body_def)
  next
    case False
    show ?thesis
    proof (cases "value_changed p")
      case None
      with False s1 show ?thesis by (simp add: play_body_def Let_def frame_index_ok_def)
    next
      case (Some reported)
      obtain v sel where reported: "reported = (v, sel)" by (cases reported)
      from assms(3) Some reported
      have "slider_minimum ?s1 = 1 \<and> slider_maximum ?s1 = number (frames ?s1)
         \<and> number (frames ?s1) \<le> number_original (frames ?s1)
         \<and> slider_minimum ?s1 \<le> v \<and> v \<le> slider_maximum ?s1
         \<and> (\<forall>it \<in> set sel. 0 \<le> row it \<and> row it < number_original (frames ?s1))"
        by (simp add: poll_ok_def list_all_iff)
      then have "frame_index_ok (snd (slider_frames_changed v sel ?s1))"
        by (rule slider_frames_changed_ok)
      with False Some reported show ?thesis
        by (simp add: play_body_def Let_def frame_index_ok_def)
    qed
  qed
  then show ?thesis
    by (simp add: play_pass_def Let_def pushbutton_stop_clicked_def frame_index_ok_def)
qed

lemma play_loop_ok:
  "frame_index_ok s \<Longrightarrow> list_all (poll_ok s) ps \<Longrightarrow> play_loop ps s = Some s'
     \<Longrightarrow> frame_index_ok s'"
proof (induction ps arbitrary: s)
  case Nil
  then show ?case by (simp split: if_splits)
next
  case (Cons p ps)
  show ?case
  proof (cases "play_condition s")
    case True
    with Cons.prems have run: "play_loop ps (play_pass p s) = Some s'" by simp
    from True Cons.prems have ok: "frame_index_ok (play_pass p s)" by (simp add: play_pass_ok)
    have "poll_ok (play_pass p s) = poll_ok s"
      by (rule ext, rule poll_ok_cong) (simp_all add: play_pass_keeps)
    with Cons.prems(2) have "list_all (poll_ok (play_pass p s)) ps" by simp
    with ok show ?thesis using run by (rule Cons.IH)
  next
    case False
    with Cons.prems show ?thesis by simp
  qed
qed

text \<open>
  C9. The three writers of the frame index keep it between 0 and \<open>number_original - 1\<close>:
  \<open>select_items\<close>, when the selected rows are rows of the list (which has \<open>number_original\<close>
  items); \<open>slider_frames_changed\<close>, when the value lies in the range configured by the
  constructor, from 1 to \<open>frames.number\<close>, and \<open>number\<close> does not exceed \<open>number_original\<close>,
  both at its own write and after its call of \<open>select_items\<close>; and the playback loop, in
  every pass and at its end, where a pass in which the slider emits \<open>valueChanged\<close> runs
  \<open>slider_frames_changed\<close> under the same conditions.
\<close>

theorem frame_index_stays_in_range:
  "(frame_index_ok s \<and> (\<forall>it \<in> set sel. 0 \<le> row it \<and> row it < number_original (frames s))
      \<longrightarrow> frame_index_ok (snd (select_items sel s)))
   \<and> (slider_minimum s = 1 \<and> slider_maximum s = number (frames s)
       \<and> number (frames s) \<le> number_original (frames s)
       \<and> slider_minimum s \<le> v \<and> v \<le> slider_maximum s
       \<and> (\<forall>it \<in> set sel. 0 \<le> row it \<and> row it < number_original (frames s))
      \<longrightarrow> frame_index_ok (s\<lparr>frame_index := v - 1\<rparr>)
          \<and> frame_index_ok (snd (slider_frames_changed v sel s)))
   \<and> (frame_index_ok s \<and> play_condition s \<and> poll_ok s p \<longrightarrow> frame_index_ok (play_pass p s))
   \<and> (frame_index_ok s \<and> list_all (poll_ok s) polls \<and> play polls s = Some s'
      \<longrightarrow> frame_index_ok s')"
proof (intro conjI impI)
  assume "frame_index_ok s \<and> (\<forall>it \<in> set sel. 0 \<le> row it \<and> row it < number_original (frames s))"
  then show "frame_index_ok (snd (select_items sel s))" by (simp add: select_items_ok)
next
  assume a: "slider_minimum s = 1 \<and> slider_maximum s = number (frames s)
       \<and> number (frames s) \<le> number_original (frames s)
       \<and> slider_minimum s \<le> v \<and> v \<le> slider_maximum s
       \<and> (\<forall>it \<in> set sel. 0 \<le> row it \<and> row it < number_original (frames s))"
  then show "frame_index_ok (s\<lparr>frame_index := v - 1\<rparr>)"
    by (rule slider_frames_changed_ok)
  from a show "frame_index_ok (snd (slider_frames_changed v sel s))"
    by (rule slider_frames_changed_ok)
next
  assume "frame_index_ok s \<and> play_condition s \<and> poll_ok s p"
  then show "frame_index_ok (play_pass p s)" by (simp add: play_pass_ok)
next
  assume a: "frame_index_ok s \<and> list_all (poll_ok s) polls \<and> play polls s = Some s'"
  let ?s0 = "s\<lparr>elements_disabled := True, run_player := True\<rparr>"
  from a obtain s1 where s1: "play_loop polls ?s0 = Some s1"
    and s': "s' = s1\<lparr>run_player := False, elements_disabled := False\<rparr>"
    by (auto simp add: play_def split: option.splits)
  from a have ok0: "frame_index_ok ?s0" by (simp add: frame_index_ok_def)
  have "poll_ok ?s0 = poll_ok s" by (rule ext, rule poll_ok_cong) simp_all
  with a have "list_all (poll_ok ?s0) polls" by simp
  with ok0 have "frame_index_ok s1" using s1 by (rule play_loop_ok)
  then show "frame_index_ok s'" by (simp add: s' frame_index_ok_def)
qed

theorem frame_index_stays_in_range_witness:
  "frame_index_ok example_session
   \<and> frame_index_ok (snd (select_items [Item 4, Item 2] example_session))
   \<and> frame_index (snd (select_items [Item 4, Item 2] example_session)) = 4
   \<and> frame_index_ok (example_session\<lparr>frame_index := 3 - 1\<rparr>)
   \<and> frame_index_ok (snd (slider_frames_changed 3 [Item 2] example_session))
   \<and> play_condition (example_session\<lparr>run_player := True\<rparr>)
   \<and> poll_ok (example_session\<lparr>run_player := True\<rparr>) (slider_moved 2 [Item 1])
   \<and> frame_index_ok (play_pass (slider_moved 2 [Item 1]) (example_session\<lparr>run_player := True\<rparr>))
   \<and> list_all (poll_ok example_session)
        [slider_moved 2 [Item 1], slider_moved 3 [Item 2], idle, idle]
   \<and> play [slider_moved 2 [Item 1], slider_moved 3 [Item 2], idle, idle] example_session \<noteq> None
   \<and> frame_index_ok (the (play [slider_moved 2 [Item 1], slider_moved 3 [Item 2], idle, idle]
        example_session))"
proof -
  let ?polls = "[slider_moved 2 [Item 1], slider_moved 3 [Item 2], idle, idle]"
  let ?run = "example_session\<lparr>run_player := True\<rparr>"
  have ok: "frame_index_ok example_session"
    by (simp add: frame_index_ok_def example_session_fields example_frames_def)
  have ok': "frame_index_ok ?run"
    using ok by (simp add: frame_index_ok_def)
  have pc: "play_condition ?run"
    by (simp add: play_condition_def example_session_fields example_frames_def)
  have p1: "poll_ok ?run (slider_moved 2 [Item 1])"
    by (simp add: poll_ok_def slider_moved_def example_session_fields example_frames_def)
  have ps: "list_all (poll_ok example_session) ?polls"
    by (simp add: poll_ok_def slider_moved_def idle_def example_session_fields
        example_frames_def)
  have pl: "play ?polls example_session \<noteq> None"
    using example_play_follows by auto
  then have pl': "play ?polls example_session = Some (the (play ?polls example_session))"
    by simp
  note w1 = frame_index_stays_in_range [of example_session "[Item 4, Item 2]" 3 idle
      ?polls "the (play ?polls example_session)"]
  note w2 = frame_index_stays_in_range [of example_session "[Item 2]" 3 idle "[]" example_session]
  note w3 = frame_index_stays_in_range [of ?run "[]" 3 "slider_moved 2 [Item 1]" "[]"
      example_session]
  have "frame_index_ok (snd (select_items [Item 4, Item 2] example_session))"
    using w1 ok by (simp add: example_session_fields example_frames_def)
  moreover have "frame_index (snd (select_items [Item 4, Item 2] example_session)) = 4"
    by (simp add: select_items_frame_index)
  moreover have "frame_index_ok (example_session\<lparr>frame_index := 3 - 1\<rparr>)
     \<and> frame_index_ok (snd (slider_frames_changed 3 [Item 2] example_session))"
    using w2 by (simp add: example_session_fields example_frames_def)
  moreover have "frame_index_ok (play_pass (slider_moved 2 [Item 1]) ?run)"
    using w3 ok' pc p1 by simp
  moreover have "frame_index_ok (the (play ?polls example_session))"
    using w1 ok ps pl' by simp
  ultimately show ?thesis using ok pc p1 ps pl by simp
qed

section \<open>Confirming the session\<close>

lemma done_loop_result:
  assumes "self_index_included s \<noteq> index_included (frames s)"
    and "\<forall>i \<in> set is. 0 \<le> i \<and> i < int (length (arrays s (self_index_included s)))
           \<and> i < int (length (arrays s (index_included (frames s))))"
    and "distinct is"
  shows "done_loop is inc exc s =
     (Return (inc @ filter (\<lambda>i. arrays s (self_index_included s) ! nat i
                                \<and> \<not> arrays s (index_included (frames s)) ! nat i) is,
              exc @ filter (\<lambda>i. \<not> arrays s (self_index_included s) ! nat i
                                \<and> arrays s (index_included (frames s)) ! nat i) is),
      s\<lparr>arrays := (arrays s)(index_included (frames s) :=
           map (\<lambda>j. if int j \<in> set is then arrays s (self_index_included s) ! j
                     else arrays s (index_included (frames s)) ! j)
             [0..<length (arrays s (index_included (frames s)))])\<rparr>)"
  using assms
proof (induction "is" arbitrary: s inc exc)
  case Nil
  then show ?case by (simp add: map_nth)
next
  case (Cons i "is")
  let ?w = "self_index_included s" and ?f = "index_included (frames s)"
  let ?W = "arrays s ?w" and ?F = "arrays s ?f"
  let ?v = "?W ! nat i"
  let ?s1 = "s\<lparr>arrays := (arrays s)(?f := ?F[nat i := ?v])\<rparr>"
  from Cons.prems have i: "0 \<le> i" "i < int (length ?W)" "i < int (length ?F)"
    and notin: "i \<notin> set is" and wf: "?w \<noteq> ?f" by simp_all
  have step: "done_loop (i # is) inc exc s =
      done_loop is (inc @ (if ?v \<and> \<not> ?F ! nat i then [i] else []))
                   (exc @ (if \<not> ?v \<and> ?F ! nat i then [i] else [])) ?s1"
  proof (cases "?v = ?F ! nat i")
    case True
    then have "?F[nat i := ?v] = ?F" by simp
    then have "?s1 = s" by simp
    with True show ?thesis using i by (auto simp add: getitem_nat)
  next
    case False
    then show ?thesis using i by (auto simp add: getitem_nat setitem_nat)
  qed
  have sw: "self_index_included ?s1 = ?w" and fr: "frames ?s1 = frames s" by simp_all
  have W1: "arrays ?s1 ?w = ?W" using wf by simp
  have F1: "arrays ?s1 ?f = ?F[nat i := ?v]" by simp
  have same: "?F[nat i := ?v] ! nat k = ?F ! nat k" if "k \<in> set is" for k
  proof -
    from that notin have "k \<noteq> i" by auto
    moreover from that Cons.prems(2) have "0 \<le> k" by simp
    ultimately have "nat k \<noteq> nat i" using i(1) by simp
    then show ?thesis by simp
  qed
  have p1: "self_index_included ?s1 \<noteq> index_included (frames ?s1)" using wf by simp
  have p2: "\<forall>k \<in> set is. 0 \<le> k \<and> k < int (length (arrays ?s1 (self_index_included ?s1)))
           \<and> k < int (length (arrays ?s1 (index_included (frames ?s1))))"
    unfolding sw fr W1 F1 using Cons.prems(2) by simp
  have p3: "distinct is" using Cons.prems(3) by simp
  have ih: "done_loop is inc' exc' ?s1 =
     (Return (inc' @ filter (\<lambda>k. ?W ! nat k \<and> \<not> ?F[nat i := ?v] ! nat k) is,
              exc' @ filter (\<lambda>k. \<not> ?W ! nat k \<and> ?F[nat i := ?v] ! nat k) is),
      ?s1\<lparr>arrays := (arrays ?s1)(?f :=
           map (\<lambda>j. if int j \<in> set is then ?W ! j else ?F[nat i := ?v] ! j)
             [0..<length (?F[nat i := ?v])])\<rparr>)" for inc' exc'
    using Cons.IH [OF p1 p2 p3, of inc' exc'] unfolding sw fr W1 F1 .
  have f1: "filter (\<lambda>k. ?W ! nat k \<and> \<not> ?F[nat i := ?v] ! nat k) is
          = filter (\<lambda>k. ?W ! nat k \<and> \<not> ?F ! nat k) is"
    by (rule filter_cong) (simp_all add: same)
  have f2: "filter (\<lambda>k. \<not> ?W ! nat k \<and> ?F[nat i := ?v] ! nat k) is
          = filter (\<lambda>k. \<not> ?W ! nat k \<and> ?F ! nat k) is"
    by (rule filter_cong) (simp_all add: same)
  have m: "map (\<lambda>j. if int j \<in> set is then ?W ! j else ?F[nat i := ?v] ! j)
             [0..<length (?F[nat i := ?v])]
         = map (\<lambda>j. if int j \<in> set (i # is) then ?W ! j else ?F ! j) [0..<length ?F]"
  proof -
    have "(if int j \<in> set is then ?W ! j else ?F[nat i := ?v] ! j)
        = (if int j \<in> set (i # is) then ?W ! j else ?F ! j)" if "j < length ?F" for j
    proof (cases "int j = i")
      case True
      then have "nat i = j" by simp
      with that True show ?thesis by simp
    next
      case False
      then have "nat i \<noteq> j" using i(1) by auto
      with False show ?thesis by simp
    qed
    then show ?thesis by simp
  qed
  have st: "?s1\<lparr>arrays := (arrays ?s1)(?f := M)\<rparr> = s\<lparr>arrays := (arrays s)(?f := M)\<rparr>" for M
    by simp
  have fl1: "(inc @ (if ?v \<and> \<not> ?F ! nat i then [i] else []))
               @ filter (\<lambda>k. ?W ! nat k \<and> \<not> ?F ! nat k) is
             = inc @ filter (\<lambda>k. ?W ! nat k \<and> \<not> ?F ! nat k) (i # is)"
    by simp
  have fl2: "(exc @ (if \<not> ?v \<and> ?F ! nat i then [i] else []))
               @ filter (\<lambda>k. \<not> ?W ! nat k \<and> ?F ! nat k) is
             = exc @ filter (\<lambda>k. \<not> ?W ! nat k \<and> ?F ! nat k) (i # is)"
    by simp
  show ?case
    by (simp only: step ih f1 f2 m st fl1 fl2)
qed

lemma done_protocol_keeps:
  "arrays (done_protocol a b s) = arrays s"
  "frames (done_protocol a b s) = frames s"
  "parent_gui (done_protocol a b s) = parent_gui s"
  "signal_finished (done_protocol a b s) = signal_finished s"
  "self_index_included (done_protocol a b s) = self_index_included s"
  by (simp_all add: done_protocol_def Let_def)

lemma done_selector_result:
  assumes "self_index_included s \<noteq> index_included (frames s)"
    and "int (length (arrays s (self_index_included s))) = number_original (frames s)"
    and "int (length (arrays s (index_included (frames s)))) = number_original (frames s)"
  shows "fst (done_selector s) =
      Return (filter (\<lambda>i. arrays s (self_index_included s) ! nat i
                            \<and> \<not> arrays s (index_included (frames s)) ! nat i)
                (py_range (number_original (frames s))),
              filter (\<lambda>i. \<not> arrays s (self_index_included s) ! nat i
                            \<and> arrays s (index_included (frames s)) ! nat i)
                (py_range (number_original (frames s))))"
    and "arrays (snd (done_selector s))
           = (arrays s)(index_included (frames s) := arrays s (self_index_included s))"
    and "frames (snd (done_selector s)) = frames s"
    and "closed (snd (done_selector s))"
proof -
  let ?w = "self_index_included s" and ?f = "index_included (frames s)"
  let ?W = "arrays s ?w" and ?F = "arrays s ?f"
  let ?n = "number_original (frames s)"
  have rng: "\<forall>i \<in> set (py_range ?n). 0 \<le> i \<and> i < int (length ?W) \<and> i < int (length ?F)"
    using assms(2,3) by (simp add: set_py_range)
  have len: "length ?F = length ?W" using assms(2,3) by simp
  have "map (\<lambda>j. if int j \<in> set (py_range ?n) then ?W ! j else ?F ! j) [0..<length ?F]
        = map (\<lambda>j. ?W ! j) [0..<length ?F]"
    using assms(3) by (intro map_cong refl) (auto simp add: set_py_range)
  also have "\<dots> = ?W" unfolding len by (rule map_nth)
  finally have m: "map (\<lambda>j. if int j \<in> set (py_range ?n) then ?W ! j else ?F ! j)
      [0..<length ?F] = ?W" .
  note loop = done_loop_result [OF assms(1) rng distinct_py_range, of "[]" "[]", unfolded m]
  show "fst (done_selector s) =
      Return (filter (\<lambda>i. ?W ! nat i \<and> \<not> ?F ! nat i) (py_range ?n),
              filter (\<lambda>i. \<not> ?W ! nat i \<and> ?F ! nat i) (py_range ?n))"
    by (simp add: done_selector_def loop Let_def)
  show "arrays (snd (done_selector s)) = (arrays s)(?f := ?W)"
    by (simp add: done_selector_def loop Let_def done_protocol_keeps)
  show "frames (snd (done_selector s)) = frames s"
    by (simp add: done_selector_def loop Let_def done_protocol_keeps)
  show "closed (snd (done_selector s))"
    by (simp add: done_selector_def loop Let_def)
qed

lemma example_done:
  "fst (done_selector example_edited) = Return ([4], [3])"
  "arrays (snd (done_selector example_edited)) 0 = [True, False, True, False, True]"
  "stacked_image_log_file (snd (done_selector example_edited))
     = [StartSelecting, FramesIncluded [5], FramesExcluded [4]]"
  "signal_finished (snd (done_selector example_edited)) = [True]"
  by (simp_all add: done_selector_def py_range_def upt_5 getitem_nat setitem_nat
      done_protocol_def py_sum_def Let_def
      example_edited_fields example_frames_def)

text \<open>
  C1. For a working array and a committed array of the same length \<open>number_original\<close>, held
  in different cells of the store, \<open>done\<close> returns normally. Its two lists are strictly
  ascending; \<open>included\<close> holds exactly the indices whose flag went from false to true,
  \<open>excluded\<close> those whose flag went from true to false; they are disjoint and together they
  are the indices at which the two arrays differ. After the call the committed array equals
  the working array and no other cell of the store has changed: every flip is written, and
  there is no exit of the loop with only some of them written.
\<close>

theorem done_commits_flips:
  assumes "self_index_included s \<noteq> index_included (frames s)"
    and "int (length (arrays s (self_index_included s))) = number_original (frames s)"
    and "int (length (arrays s (index_included (frames s)))) = number_original (frames s)"
  shows "\<exists>included excluded.
      fst (done_selector s) = Return (included, excluded)
      \<and> sorted_wrt (<) included \<and> sorted_wrt (<) excluded
      \<and> set included = {i. 0 \<le> i \<and> i < number_original (frames s)
            \<and> arrays s (self_index_included s) ! nat i
            \<and> \<not> arrays s (index_included (frames s)) ! nat i}
      \<and> set excluded = {i. 0 \<le> i \<and> i < number_original (frames s)
            \<and> \<not> arrays s (self_index_included s) ! nat i
            \<and> arrays s (index_included (frames s)) ! nat i}
      \<and> set included \<inter> set excluded = {}
      \<and> set included \<union> set excluded = {i. 0 \<le> i \<and> i < number_original (frames s)
            \<and> arrays s (self_index_included s) ! nat i
                \<noteq> arrays s (index_included (frames s)) ! nat i}
      \<and> arrays (snd (done_selector s))
           = (arrays s)(index_included (frames s) := arrays s (self_index_included s))
      \<and> frames (snd (done_selector s)) = frames s"
proof -
  let ?W = "arrays s (self_index_included s)" and ?F = "arrays s (index_included (frames s))"
  let ?n = "number_original (frames s)"
  let ?inc = "filter (\<lambda>i. ?W ! nat i \<and> \<not> ?F ! nat i) (py_range ?n)"
  let ?exc = "filter (\<lambda>i. \<not> ?W ! nat i \<and> ?F ! nat i) (py_range ?n)"
  note r = done_selector_result [OF assms]
  have "sorted_wrt (<) ?inc" "sorted_wrt (<) ?exc"
    by (simp_all add: sorted_wrt_filter sorted_py_range)
  moreover have "set ?inc = {i. 0 \<le> i \<and> i < ?n \<and> ?W ! nat i \<and> \<not> ?F ! nat i}"
    and "set ?exc = {i. 0 \<le> i \<and> i < ?n \<and> \<not> ?W ! nat i \<and> ?F ! nat i}"
    by (auto simp add: set_py_range)
  moreover have "set ?inc \<inter> set ?exc = {}" by auto
  moreover have "set ?inc \<union> set ?exc = {i. 0 \<le> i \<and> i < ?n \<and> ?W ! nat i \<noteq> ?F ! nat i}"
    by (auto simp add: set_py_range)
  ultimately show ?thesis using r(1) r(2) r(3) by blast
qed

theorem done_commits_flips_witness:
  "self_index_included example_edited \<noteq> index_included (frames example_edited)
   \<and> int (length (arrays example_edited (self_index_included example_edited)))
       = number_original (frames example_edited)
   \<and> int (length (arrays example_edited (index_included (frames example_edited))))
       = number_original (frames example_edited)
   \<and> fst (done_selector example_edited) = Return ([4], [3])
   \<and> arrays (snd (done_selector example_edited))
       = (arrays example_edited)(0 := [True, False, True, False, True])"
proof -
  have h: "self_index_included example_edited \<noteq> index_included (frames example_edited)"
    "int (length (arrays example_edited (self_index_included example_edited)))
       = number_original (frames example_edited)"
    "int (length (arrays example_edited (index_included (frames example_edited))))
       = number_original (frames example_edited)"
    by (simp_all add: example_edited_fields example_frames_def)
  from done_commits_flips [OF h]
  have "arrays (snd (done_selector example_edited))
       = (arrays example_edited)(0 := [True, False, True, False, True])"
    by (elim exE conjE) (simp add: example_edited_fields example_frames_def)
  with h show ?thesis by (simp add: example_done)
qed

lemma count_flips:
  "n \<le> length W \<Longrightarrow> n \<le> length F \<Longrightarrow>
   py_sum (take n W) + int (length (filter (\<lambda>i. \<not> W ! nat i \<and> F ! nat i) (map int [0..<n])))
   = py_sum (take n F) + int (length (filter (\<lambda>i. W ! nat i \<and> \<not> F ! nat i) (map int [0..<n])))"
  by (induction n) (auto simp add: take_Suc_conv_app_nth py_sum_def)

lemma play_loop_keeps:
  "play_loop ps s = Some s' \<Longrightarrow> frames s' = frames s \<and> arrays s' = arrays s"
proof (induction ps arbitrary: s)
  case Nil
  then show ?case by (simp split: if_splits)
next
  case (Cons p ps)
  have "frames (play_pass p s) = frames s \<and> arrays (play_pass p s) = arrays s"
    by (simp add: play_pass_keeps)
  with Cons show ?case by (auto split: if_splits)
qed

lemma play_keeps:
  "play polls s = Some s' \<Longrightarrow> frames s' = frames s \<and> arrays s' = arrays s"
  by (auto simp add: play_def split: option.splits dest!: play_loop_keeps)

text \<open>
  C3, as stated, fails. In the example session \<open>number\<close> is 3 and three entries are true. After
  frames 3 and 1 were excluded and the session was confirmed, the committed array has two
  true entries and \<open>number\<close> is still 3.
\<close>

theorem done_breaks_number:
  "frames_invariant example_excluded
   \<and> fst (done_selector example_excluded) = Return ([], [3])
   \<and> number (frames (snd (done_selector example_excluded))) = 3
   \<and> py_sum (arrays (snd (done_selector example_excluded))
              (index_included (frames (snd (done_selector example_excluded))))) = 2
   \<and> \<not> frames_invariant (snd (done_selector example_excluded))"
  by (simp add: frames_invariant_def done_selector_def py_range_def upt_5 getitem_nat setitem_nat
      done_protocol_def py_sum_def Let_def example_excluded_fields example_frames_def)

text \<open>
  C3, amended. \<open>done\<close> writes the flips into the committed array and does not write
  \<open>number\<close>: after it \<open>number\<close> has its old value, and the count of true entries is the old
  count plus the number of included minus the number of excluded indices, so that the
  invariant survives \<open>done\<close> exactly when as many frames were included as excluded. Every
  other operation (the editing handlers, stop, \<open>reject\<close>, \<open>play\<close>) writes neither \<open>number\<close>
  nor the committed array and keeps the invariant as it is.
\<close>

theorem done_keeps_number:
  assumes "self_index_included s \<noteq> index_included (frames s)"
    and "int (length (arrays s (self_index_included s))) = number_original (frames s)"
    and "int (length (arrays s (index_included (frames s)))) = number_original (frames s)"
    and "fst (done_selector s) = Return (included, excluded)"
  shows "number (frames (snd (done_selector s))) = number (frames s)
    \<and> py_sum (arrays (snd (done_selector s)) (index_included (frames (snd (done_selector s)))))
        = py_sum (arrays s (index_included (frames s)))
          + int (length included) - int (length excluded)
    \<and> (frames_invariant s \<longrightarrow>
         (frames_invariant (snd (done_selector s)) \<longleftrightarrow> length included = length excluded))
    \<and> (frames_invariant (snd (handle c s)) \<longleftrightarrow> frames_invariant s)
    \<and> (frames_invariant (pushbutton_stop_clicked s) \<longleftrightarrow> frames_invariant s)
    \<and> (frames_invariant (snd (reject s)) \<longleftrightarrow> frames_invariant s)
    \<and> (play polls s = Some s' \<longrightarrow> (frames_invariant s' \<longleftrightarrow> frames_invariant s))"
proof -
  let ?w = "self_index_included s" and ?f = "index_included (frames s)"
  let ?W = "arrays s ?w" and ?F = "arrays s ?f"
  let ?n = "number_original (frames s)"
  let ?d = "snd (done_selector s)"
  note r = done_selector_result [OF assms(1-3)]
  from r(1) assms(4) have inc: "included = filter (\<lambda>i. ?W ! nat i \<and> \<not> ?F ! nat i) (py_range ?n)"
    and exc: "excluded = filter (\<lambda>i. \<not> ?W ! nat i \<and> ?F ! nat i) (py_range ?n)" by simp_all
  have lenW: "length ?W = nat ?n" and lenF: "length ?F = nat ?n" using assms(2,3) by auto
  from count_flips [of "nat ?n" ?W ?F]
  have cnt: "py_sum ?W + int (length excluded) = py_sum ?F + int (length included)"
    by (simp add: lenW lenF inc exc py_range_def)
  have d1: "number (frames ?d) = number (frames s)" by (simp add: r(3))
  have d2: "py_sum (arrays ?d (index_included (frames ?d)))
      = py_sum ?F + int (length included) - int (length excluded)"
    using cnt by (simp add: r(2) r(3))
  have d3: "frames_invariant ?d \<longleftrightarrow> length included = length excluded" if "frames_invariant s"
    using that d1 d2 by (auto simp add: frames_invariant_def)
  have h: "frames_invariant (snd (handle c s)) \<longleftrightarrow> frames_invariant s"
    using handle_frame [of s c] assms(1) by (simp add: working_copy_only_def frames_invariant_def)
  have st: "frames_invariant (pushbutton_stop_clicked s) \<longleftrightarrow> frames_invariant s"
    by (simp add: pushbutton_stop_clicked_def frames_invariant_def)
  have rj: "frames_invariant (snd (reject s)) \<longleftrightarrow> frames_invariant s"
    by (simp add: reject_def frames_invariant_def split: option.splits)
  have pl: "frames_invariant s' \<longleftrightarrow> frames_invariant s" if "play polls s = Some s'"
    using play_keeps [OF that] by (simp add: frames_invariant_def)
  from d1 d2 d3 h st rj pl show ?thesis by blast
qed

theorem done_keeps_number_witness:
  "self_index_included example_excluded \<noteq> index_included (frames example_excluded)
   \<and> int (length (arrays example_excluded (self_index_included example_excluded)))
       = number_original (frames example_excluded)
   \<and> int (length (arrays example_excluded (index_included (frames example_excluded))))
       = number_original (frames example_excluded)
   \<and> fst (done_selector example_excluded) = Return ([], [3])
   \<and> number (frames (snd (done_selector example_excluded))) = number (frames example_excluded)
   \<and> py_sum (arrays (snd (done_selector example_excluded))
         (index_included (frames (snd (done_selector example_excluded)))))
       = py_sum (arrays example_excluded (index_included (frames example_excluded)))
         + int (length ([]::int list)) - int (length [3::int])
   \<and> frames_invariant (snd (handle NotUseTriggered example_excluded))"
proof -
  have h: "self_index_included example_excluded \<noteq> index_included (frames example_excluded)"
    "int (length (arrays example_excluded (self_index_included example_excluded)))
       = number_original (frames example_excluded)"
    "int (length (arrays example_excluded (index_included (frames example_excluded))))
       = number_original (frames example_excluded)"
    by (simp_all add: example_excluded_fields example_frames_def)
  have d: "fst (done_selector example_excluded) = Return ([], [3])"
    by (simp add: done_selector_def py_range_def upt_5 getitem_nat setitem_nat Let_def
      example_excluded_fields example_frames_def)
  have i: "frames_invariant example_excluded"
    by (simp add: frames_invariant_def py_sum_def example_excluded_fields example_frames_def)
  from done_keeps_number [OF h d, of NotUseTriggered "[]" example_excluded] h d i
  show ?thesis by simp
qed

section \<open>Including and excluding the selected frames\<close>

lemma mark_empty: "mark flag {} W = W"
  by (simp add: mark_def map_nth)

lemma length_mark: "length (mark flag rows W) = length W"
  by (simp add: mark_def)

lemma mark_update:
  "0 \<le> r \<Longrightarrow> r < int (length W) \<Longrightarrow> mark flag rows (W[nat r := flag]) = mark flag (insert r rows) W"
proof -
  assume r: "0 \<le> r" "r < int (length W)"
  have "(if int j \<in> rows then flag else W[nat r := flag] ! j)
      = (if int j \<in> insert r rows then flag else W ! j)" if "j < length W" for j
  proof (cases "int j = r")
    case True
    then have "nat r = j" by simp
    with that True show ?thesis by simp
  next
    case False
    then have "nat r \<noteq> j" using r(1) by auto
    with False show ?thesis by simp
  qed
  then show ?thesis by (simp add: mark_def)
qed

lemma triggered_loop_result:
  assumes "viewer_index_included s = self_index_included s"
    and "0 \<le> frame_index s" "frame_index s < int (length (arrays s (self_index_included s)))"
    and "indices_selected s = Some indices"
    and "\<forall>p \<in> set ps. 0 \<le> p \<and> p < int (length indices)"
    and "\<forall>r \<in> set indices. 0 \<le> r \<and> r < int (length (arrays s (self_index_included s)))"
  shows "\<exists>ph b. triggered_loop flag ps s =
     (Return (), s\<lparr>arrays := (arrays s)(self_index_included s :=
           mark flag ((\<lambda>p. indices ! nat p) ` set ps) (arrays s (self_index_included s))),
         photos := ph, image_loading_busy := b\<rparr>)"
  using assms
proof (induction ps arbitrary: s)
  case Nil
  have "s\<lparr>arrays := arrays s, photos := photos s, image_loading_busy := image_loading_busy s\<rparr> = s"
    by simp
  then show ?case by (auto simp add: mark_empty intro!: exI [of _ "photos s"] exI [of _ "image_loading_busy s"])
next
  case (Cons p ps)
  let ?w = "self_index_included s"
  let ?W = "arrays s ?w"
  let ?r = "indices ! nat p"
  from Cons.prems have p: "0 \<le> p" "p < int (length indices)" by simp_all
  then have "?r \<in> set indices" by simp
  with Cons.prems have r: "0 \<le> ?r" "?r < int (length ?W)" by simp_all
  let ?s1 = "s\<lparr>arrays := (arrays s)(?w := ?W[nat ?r := flag])\<rparr>"
  let ?ph = "photos ?s1 @ [(frame_index s, \<not> arrays ?s1 (viewer_index_included ?s1) ! nat (frame_index s))]"
  let ?s2 = "?s1\<lparr>photos := ?ph, image_loading_busy := False\<rparr>"
  have sp: "setPhoto (frame_index s) ?s1 = (Return (), ?s2)"
    using Cons.prems(1-3) by (intro setPhoto_ok) simp_all
  have step: "triggered_loop flag (p # ps) s = triggered_loop flag ps ?s2"
    using Cons.prems(4) p r by (simp add: getitem_nat setitem_nat sp)
  have W2: "arrays ?s2 (self_index_included ?s2) = ?W[nat ?r := flag]" by simp
  have "\<exists>ph b. triggered_loop flag ps ?s2 =
     (Return (), ?s2\<lparr>arrays := (arrays ?s2)(self_index_included ?s2 :=
           mark flag ((\<lambda>p. indices ! nat p) ` set ps) (arrays ?s2 (self_index_included ?s2))),
         photos := ph, image_loading_busy := b\<rparr>)"
    using Cons.prems by (intro Cons.IH) simp_all
  then obtain ph b where ih: "triggered_loop flag ps ?s2 =
     (Return (), ?s2\<lparr>arrays := (arrays ?s2)(self_index_included ?s2 :=
           mark flag ((\<lambda>p. indices ! nat p) ` set ps) (arrays ?s2 (self_index_included ?s2))),
         photos := ph, image_loading_busy := b\<rparr>)" by blast
  have m: "mark flag ((\<lambda>p. indices ! nat p) ` set ps) (?W[nat ?r := flag])
         = mark flag ((\<lambda>p. indices ! nat p) ` set (p # ps)) ?W"
    using mark_update [OF r] by simp
  have "triggered_loop flag (p # ps) s =
     (Return (), s\<lparr>arrays := (arrays s)(?w :=
           mark flag ((\<lambda>p. indices ! nat p) ` set (p # ps)) ?W),
         photos := ph, image_loading_busy := b\<rparr>)"
    unfolding step ih W2 m by simp
  then show ?case by blast
qed

lemma rows_image: "(\<lambda>p. xs ! nat p) ` set (py_range (int (length xs))) = set xs"
proof -
  have "(\<lambda>p. xs ! nat p) ` set (py_range (int (length xs))) = (\<lambda>k. xs ! k) ` {0..<length xs}"
    by (simp add: py_range_def image_image)
  also have "\<dots> = set xs" by (auto simp add: set_conv_nth)
  finally show ?thesis .
qed

lemma triggered_result:
  assumes "session_ok s"
  shows "\<exists>ph b. triggered flag s =
     (Return (), s\<lparr>arrays := (arrays s)(self_index_included s :=
           mark flag (selected_of s) (arrays s (self_index_included s))),
         photos := ph, image_loading_busy := b\<rparr>)"
proof (cases "items_selected s")
  case None
  with assms have "selected_of s = {}" by (simp add: session_ok_def selected_of_def)
  moreover have "s\<lparr>arrays := arrays s, photos := photos s,
      image_loading_busy := image_loading_busy s\<rparr> = s" by simp
  ultimately show ?thesis using None
    by (auto simp add: triggered_def mark_empty
        intro!: exI [of _ "photos s"] exI [of _ "image_loading_busy s"])
next
  case (Some items)
  with assms have ind: "indices_selected s = Some (map row items)"
    and ok: "rows_ok (length (arrays s (self_index_included s))) items"
    and v: "viewer_index_included s = self_index_included s"
    and fi: "0 \<le> frame_index s" "frame_index s < int (length (arrays s (self_index_included s)))"
    by (simp_all add: session_ok_def)
  have sel: "selected_of s = set (map row items)" using ind by (simp add: selected_of_def)
  show ?thesis
  proof (cases items)
    case Nil
    have "s\<lparr>arrays := arrays s, photos := photos s,
      image_loading_busy := image_loading_busy s\<rparr> = s" by simp
    with Nil Some sel show ?thesis
      by (auto simp add: triggered_def mark_empty
          intro!: exI [of _ "photos s"] exI [of _ "image_loading_busy s"])
  next
    case (Cons x xs)
    have ps: "\<forall>p \<in> set (py_range (int (length items))). 0 \<le> p \<and> p < int (length (map row items))"
      by (simp add: set_py_range)
    have rs: "\<forall>r \<in> set (map row items). 0 \<le> r \<and> r < int (length (arrays s (self_index_included s)))"
      using ok by (auto simp add: rows_ok_def list_all_iff)
    from triggered_loop_result [OF v fi ind ps rs, of flag]
    obtain ph b where "triggered_loop flag (py_range (int (length items))) s =
     (Return (), s\<lparr>arrays := (arrays s)(self_index_included s :=
           mark flag ((\<lambda>p. map row items ! nat p) ` set (py_range (int (length items))))
             (arrays s (self_index_included s))),
         photos := ph, image_loading_busy := b\<rparr>)" by blast
    moreover have "(\<lambda>p. map row items ! nat p) ` set (py_range (int (length items)))
        = set (map row items)"
      using rows_image [of "map row items"] by simp
    ultimately have "triggered_loop flag (py_range (int (length items))) s =
     (Return (), s\<lparr>arrays := (arrays s)(self_index_included s :=
           mark flag (selected_of s) (arrays s (self_index_included s))),
         photos := ph, image_loading_busy := b\<rparr>)" by (simp add: sel)
    moreover have "triggered flag s = triggered_loop flag (py_range (int (length items))) s"
      using Some Cons by (simp add: triggered_def)
    ultimately show ?thesis by auto
  qed
qed

lemma select_items_result:
  assumes "session_ok s" and "items \<noteq> []"
    and "rows_ok (length (arrays s (self_index_included s))) items"
  shows "\<exists>ph. select_items items s =
     (Return (), s\<lparr>items_selected := Some items, indices_selected := Some (map row items),
         frame_index := row (hd items), photos := ph, image_loading_busy := False\<rparr>)"
proof -
  from assms(2) obtain x xs where items: "items = x # xs" by (cases items) auto
  from assms(3) items have x: "0 \<le> row x" "row x < int (length (arrays s (self_index_included s)))"
    by (simp_all add: rows_ok_def)
  let ?s2 = "s\<lparr>items_selected := Some items, indices_selected := Some (map row items),
      frame_index := row x\<rparr>"
  have v: "viewer_index_included ?s2 = self_index_included s"
    using assms(1) by (simp add: session_ok_def)
  have "setPhoto (row x) ?s2 = (Return (), ?s2\<lparr>photos := photos ?s2
       @ [(row x, \<not> arrays ?s2 (viewer_index_included ?s2) ! nat (row x))],
       image_loading_busy := False\<rparr>)"
    using x v by (intro setPhoto_ok) simp_all
  then have "select_items items s =
     (Return (), s\<lparr>items_selected := Some items, indices_selected := Some (map row items),
         frame_index := row (hd items),
         photos := photos s @ [(row x, \<not> arrays s (viewer_index_included s) ! nat (row x))],
         image_loading_busy := False\<rparr>)"
    using items by (simp add: select_items_def Let_def getitem_first)
  then show ?thesis by (intro exI)
qed

lemma session_ok_after_triggered:
  assumes "session_ok s" and "length W' = length (arrays s (self_index_included s))"
  shows "session_ok (s\<lparr>arrays := (arrays s)(self_index_included s := W'),
      photos := ph, image_loading_busy := b\<rparr>)"
  using assms by (simp add: session_ok_def split: option.splits)

lemma session_ok_after_select:
  assumes "session_ok s" and "items \<noteq> []"
    and "rows_ok (length (arrays s (self_index_included s))) items"
  shows "session_ok (s\<lparr>items_selected := Some items, indices_selected := Some (map row items),
         frame_index := row (hd items), photos := ph, image_loading_busy := b\<rparr>)"
proof -
  from assms(2) obtain x xs where items: "items = x # xs" by (cases items) auto
  with assms show ?thesis by (simp add: session_ok_def rows_ok_def)
qed

lemma handle_step:
  assumes "session_ok s" and "command_ok (length (arrays s (self_index_included s))) c"
  shows "fst (handle c s) = Return ()
     \<and> session_ok (snd (handle c s))
     \<and> self_index_included (snd (handle c s)) = self_index_included s
     \<and> selection_of (snd (handle c s)) = spec_step c (selection_of s)"
proof (cases c)
  case (SelectItems items)
  with assms(2) have ne: "items \<noteq> []" and ok: "rows_ok (length (arrays s (self_index_included s))) items"
    by simp_all
  from select_items_result [OF assms(1) ne ok] obtain ph where
    "select_items items s =
     (Return (), s\<lparr>items_selected := Some items, indices_selected := Some (map row items),
         frame_index := row (hd items), photos := ph, image_loading_busy := False\<rparr>)" by blast
  then show ?thesis using SelectItems session_ok_after_select [OF assms(1) ne ok, where ph = ph and b = False]
    by (simp add: selection_of_def selected_of_def spec_set_selection_def)
next
  case UseTriggered
  from triggered_result [OF assms(1), of True] obtain ph b where
    "triggered True s =
     (Return (), s\<lparr>arrays := (arrays s)(self_index_included s :=
           mark True (selected_of s) (arrays s (self_index_included s))),
         photos := ph, image_loading_busy := b\<rparr>)" by blast
  then show ?thesis
    using UseTriggered session_ok_after_triggered [OF assms(1) length_mark,
        where flag1 = True and rows1 = "selected_of s" and ph = ph and b = b]
    by (simp add: use_triggered_def selection_of_def selected_of_def spec_include_selected_def
        mark_def)
next
  case NotUseTriggered
  from triggered_result [OF assms(1), of False] obtain ph b where
    "triggered False s =
     (Return (), s\<lparr>arrays := (arrays s)(self_index_included s :=
           mark False (selected_of s) (arrays s (self_index_included s))),
         photos := ph, image_loading_busy := b\<rparr>)" by blast
  then show ?thesis
    using NotUseTriggered
      session_ok_after_triggered [OF assms(1) length_mark,
        where flag1 = False and rows1 = "selected_of s" and ph = ph and b = b]
    by (simp add: not_use_triggered_def selection_of_def selected_of_def
        spec_exclude_selected_def mark_def)
next
  case EscapePressed
  then show ?thesis using assms(1)
    by (simp add: escape_pressed_def session_ok_def rows_ok_def selection_of_def selected_of_def
        spec_set_selection_def)
next
  case (SliderChanged v items)
  with assms(2) have ne: "items \<noteq> []" and ok: "rows_ok (length (arrays s (self_index_included s))) items"
    by simp_all
  from ne obtain x xs where items: "items = x # xs" by (cases items) auto
  from ok items have x: "0 \<le> row x" "row x < int (length (arrays s (self_index_included s)))"
    by (simp_all add: rows_ok_def)
  let ?s1 = "s\<lparr>frame_index := v - 1\<rparr>"
  have v1: "viewer_index_included s = self_index_included s"
    using assms(1) by (simp add: session_ok_def)
  let ?s2 = "s\<lparr>items_selected := Some items, indices_selected := Some (map row items),
      frame_index := row x\<rparr>"
  let ?s3 = "?s2\<lparr>photos := photos ?s2
       @ [(row x, \<not> arrays ?s2 (viewer_index_included ?s2) ! nat (row x))],
       image_loading_busy := False\<rparr>"
  have sp2: "setPhoto (row x) ?s2 = (Return (), ?s3)"
    using x v1 by (intro setPhoto_ok) simp_all
  have sel: "select_items items ?s1 = (Return (), ?s3)"
    using items sp2 by (simp add: select_items_def Let_def getitem_first)
  let ?s4 = "?s3\<lparr>photos := photos ?s3
       @ [(row x, \<not> arrays ?s3 (viewer_index_included ?s3) ! nat (row x))],
       image_loading_busy := False\<rparr>"
  have sp3: "setPhoto (row x) ?s3 = (Return (), ?s4)"
    using x v1 by (intro setPhoto_ok) simp_all
  have fi3: "frame_index ?s3 = row x" by simp
  have res: "slider_frames_changed v items s = (Return (), ?s4)"
    by (simp only: slider_frames_changed_def Let_def sel prod.case outcome.case fi3 sp3)
  have "session_ok ?s4"
    using session_ok_after_select [OF assms(1) ne ok] items by (simp add: session_ok_def)
  then show ?thesis using SliderChanged res
    by (simp add: selection_of_def selected_of_def spec_set_selection_def)
qed

lemma length_spec_step: "length (fst (spec_step c st)) = length (fst st)"
  by (cases c; cases st)
     (simp_all add: spec_set_selection_def spec_include_selected_def spec_exclude_selected_def)

lemma run_commands_replay:
  assumes "session_ok s"
    and "list_all (command_ok (length (arrays s (self_index_included s)))) cmds"
  shows "fst (run_commands cmds s) = []
     \<and> session_ok (snd (run_commands cmds s))
     \<and> self_index_included (snd (run_commands cmds s)) = self_index_included s
     \<and> selection_of (snd (run_commands cmds s)) = spec_replay cmds (selection_of s)"
  using assms
proof (induction cmds arbitrary: s)
  case Nil
  then show ?case by simp
next
  case (Cons c cmds)
  let ?s1 = "snd (handle c s)"
  from Cons.prems have c: "command_ok (length (arrays s (self_index_included s))) c" by simp
  note h = handle_step [OF Cons.prems(1) c]
  from h have "selection_of ?s1 = spec_step c (selection_of s)" by simp
  then have "fst (selection_of ?s1) = fst (spec_step c (selection_of s))" by simp
  then have len: "length (arrays ?s1 (self_index_included ?s1))
      = length (arrays s (self_index_included s))"
    using length_spec_step [of c "selection_of s"] by (simp add: selection_of_def)
  have ok1: "session_ok ?s1" using h by simp
  have cs: "list_all (command_ok (length (arrays ?s1 (self_index_included ?s1)))) cmds"
    using Cons.prems(2) by (simp add: len)
  note ih = Cons.IH [OF ok1 cs]
  have run: "run_commands (c # cmds) s = run_commands cmds ?s1"
    using h by (cases "handle c s") simp
  show ?case unfolding run using ih h by simp
qed

lemma triggered_no_selection:
  assumes "session_ok s" and "selected_of s = {}"
  shows "triggered flag s = (Return (), s)"
proof (cases "items_selected s")
  case None
  then show ?thesis by (simp add: triggered_def)
next
  case (Some items)
  with assms have "items = []" by (simp add: session_ok_def selected_of_def)
  with Some show ?thesis by (simp add: triggered_def)
qed

lemma example_session_ok: "session_ok example_session"
  by (simp add: session_ok_def example_session_fields)

text \<open>
  C2. In a session that is in order, every sequence of commands that are in order runs without
  an exception, and the working array at its end is the array obtained by replaying the
  commands on the selection state of the specification. A single \<open>use_triggered\<close>
  (\<open>not_use_triggered\<close>) returns normally, writes true (false) at every selected index and
  leaves the other positions as they are; with an empty selection either call changes
  nothing at all.
\<close>

theorem triggered_commands_replay:
  assumes "session_ok s"
    and "list_all (command_ok (length (arrays s (self_index_included s)))) cmds"
  shows "fst (run_commands cmds s) = []
     \<and> self_index_included (snd (run_commands cmds s)) = self_index_included s
     \<and> arrays (snd (run_commands cmds s)) (self_index_included s)
         = fst (spec_replay cmds (arrays s (self_index_included s), selected_of s))
     \<and> fst (use_triggered s) = Return ()
     \<and> arrays (snd (use_triggered s)) (self_index_included s)
         = map (\<lambda>i. if int i \<in> selected_of s then True else arrays s (self_index_included s) ! i)
             [0..<length (arrays s (self_index_included s))]
     \<and> fst (not_use_triggered s) = Return ()
     \<and> arrays (snd (not_use_triggered s)) (self_index_included s)
         = map (\<lambda>i. if int i \<in> selected_of s then False else arrays s (self_index_included s) ! i)
             [0..<length (arrays s (self_index_included s))]
     \<and> (selected_of s = {} \<longrightarrow>
           use_triggered s = (Return (), s) \<and> not_use_triggered s = (Return (), s))"
proof -
  note r = run_commands_replay [OF assms]
  from r have a: "fst (run_commands cmds s) = []"
    and b: "self_index_included (snd (run_commands cmds s)) = self_index_included s"
    and c: "selection_of (snd (run_commands cmds s)) = spec_replay cmds (selection_of s)"
    by simp_all
  from c b have d: "arrays (snd (run_commands cmds s)) (self_index_included s)
         = fst (spec_replay cmds (arrays s (self_index_included s), selected_of s))"
    by (simp add: selection_of_def prod_eq_iff)
  have e: "fst (triggered flag s) = Return ()
     \<and> arrays (snd (triggered flag s)) (self_index_included s)
         = map (\<lambda>i. if int i \<in> selected_of s then flag else arrays s (self_index_included s) ! i)
             [0..<length (arrays s (self_index_included s))]" for flag
    using triggered_result [OF assms(1), of flag] by (auto simp add: mark_def)
  have f: "triggered flag s = (Return (), s)" if "selected_of s = {}" for flag
    using assms(1) that by (rule triggered_no_selection)
  from a b d e [of True] e [of False] f show ?thesis
    by (simp add: use_triggered_def not_use_triggered_def)
qed

theorem triggered_commands_replay_witness:
  "session_ok example_session
   \<and> list_all (command_ok (length (arrays example_session (self_index_included example_session))))
       [SelectItems [Item 3, Item 1], NotUseTriggered, EscapePressed, UseTriggered,
        SelectItems [Item 4], UseTriggered]
   \<and> arrays (snd (run_commands
       [SelectItems [Item 3, Item 1], NotUseTriggered, EscapePressed, UseTriggered,
        SelectItems [Item 4], UseTriggered] example_session)) 1
      = [True, False, True, False, True]
   \<and> selected_of example_session = {}
   \<and> use_triggered example_session = (Return (), example_session)"
proof -
  let ?cmds = "[SelectItems [Item 3, Item 1], NotUseTriggered, EscapePressed, UseTriggered,
        SelectItems [Item 4], UseTriggered]"
  have h: "list_all (command_ok (length (arrays example_session
      (self_index_included example_session)))) ?cmds"
    by (simp add: example_session_fields rows_ok_def)
  have sel: "selected_of example_session = {}"
    by (simp add: selected_of_def example_session_fields)
  have rp: "fst (spec_replay ?cmds ([True, False, True, True, False], {}))
      = [True, False, True, False, True]"
    by (simp add: spec_set_selection_def spec_include_selected_def spec_exclude_selected_def
        upt_5)
  from triggered_commands_replay [OF example_session_ok h] sel rp
  have "arrays (snd (run_commands ?cmds example_session)) 1 = [True, False, True, False, True]
    \<and> use_triggered example_session = (Return (), example_session)"
    by (simp add: example_session_fields)
  with example_session_ok h sel show ?thesis by blast
qed

end
